theory Spec2Isabelle
  imports Main "HOL-Library.Word"
begin

unbundle bit_operations_syntax

section \<open>The buffer cache of filesys/cache.c\<close>

text \<open>
  The model follows \<^verbatim>\<open>src/filesys/cache.c\<close>. A call that has to wait for another thread
  (a held lock, a \<^verbatim>\<open>cond_wait\<close> whose condition is still true, a busy-wait on the eviction
  lock, a \<^verbatim>\<open>sema_down\<close> on a semaphore at zero) yields \<open>Inl Blocked\<close>: the step is not
  enabled in that state. A failed \<^verbatim>\<open>ASSERT\<close> panics the kernel and yields \<open>Inl Panic\<close>.
  The eviction loop takes a bound on its iterations; \<open>Inl OutOfFuel\<close> says that the
  loop was still running when the bound was used up.
  Every function that completes yields \<open>Inr\<close> of the new state. The monitor lock
  \<^verbatim>\<open>rw_lock\<close> and the condition \<^verbatim>\<open>rw_cond\<close> are held only inside the four admission
  functions, each of which is one atomic step; they carry no state between steps.
  Sector numbers (\<^verbatim>\<open>block_sector_t\<close>) and the flag word are 32-bit words, the reader
  count is a 32-bit word read as a signed \<^verbatim>\<open>int\<close>, and the number of entries
  (\<^verbatim>\<open>MAX_CACHE_SIZE\<close>) is the length of the table. The periodic write-back thread that
  \<^verbatim>\<open>cache_init\<close> starts is not among the steps modelled.
\<close>

datatype stop = Blocked | Panic | OutOfFuel

type_synonym block_sector_t = "32 word"
type_synonym block = "8 word list"

subsection \<open>Flags and cache entries\<close>

definition B_NOFLAG :: "32 word" where "B_NOFLAG = 0"
definition B_RECENT :: "32 word" where "B_RECENT = 1"
definition B_DIRTY :: "32 word" where "B_DIRTY = 2"
definition B_ALL :: "32 word" where "B_ALL = 3"

record cache_e =
  entry_lock :: bool
  reader_count :: "32 word"
  has_writer :: bool
  sec :: block_sector_t
  flag :: "32 word"
  data :: block

subsection \<open>Readers-writer admission\<close>

definition cache_write_acquire :: "cache_e \<Rightarrow> stop + cache_e" where
  "cache_write_acquire c =
     (if has_writer c \<or> 0 < sint (reader_count c) then Inl Blocked
      else Inr (c\<lparr>has_writer := True\<rparr>))"

definition cache_write_release :: "cache_e \<Rightarrow> stop + cache_e" where
  "cache_write_release c =
     (if \<not> has_writer c then Inl Panic
      else Inr (c\<lparr>has_writer := False\<rparr>))"

definition cache_read_acquire :: "cache_e \<Rightarrow> stop + cache_e" where
  "cache_read_acquire c =
     (if has_writer c then Inl Blocked
      else Inr (c\<lparr>reader_count := reader_count c + 1\<rparr>))"

definition cache_read_release :: "cache_e \<Rightarrow> stop + cache_e" where
  "cache_read_release c =
     (if \<not> 0 < sint (reader_count c) then Inl Panic
      else Inr (c\<lparr>reader_count := reader_count c - 1\<rparr>))"

subsection \<open>The block device\<close>

datatype io = DevRead block_sector_t | DevWrite block_sector_t block

record block_dev =
  contents :: "block_sector_t \<Rightarrow> block"
  dev_size :: block_sector_t
  io_log :: "io list"

text \<open>
  Modelled from the spec: the device driver (\<^verbatim>\<open>devices/block.c\<close>) is not part of the
  sources. The spec gives \<^verbatim>\<open>device_read(sector) -> block\<close>,
  \<^verbatim>\<open>device_write(sector, block)\<close> and \<^verbatim>\<open>device_size() -> sector_count\<close>, synchronous
  and always succeeding. Each transfer is also appended to \<open>io_log\<close>, so that the
  traffic a call causes can be counted.
\<close>

definition block_read :: "block_dev \<Rightarrow> block_sector_t \<Rightarrow> block \<times> block_dev" where
  "block_read d s = (contents d s, d\<lparr>io_log := io_log d @ [DevRead s]\<rparr>)"

definition block_write :: "block_dev \<Rightarrow> block_sector_t \<Rightarrow> block \<Rightarrow> block_dev" where
  "block_write d s b = d\<lparr>contents := (contents d)(s := b), io_log := io_log d @ [DevWrite s b]\<rparr>"

definition block_size :: "block_dev \<Rightarrow> block_sector_t" where
  "block_size d = dev_size d"

subsection \<open>The cache table\<close>

text \<open>
  \<open>cache\<close> is the static array (its length is \<^verbatim>\<open>MAX_CACHE_SIZE\<close>), \<open>clock_cache\<close> the
  clock hand as an index into it, \<open>eviction_lock\<close> whether the global lock is held.
\<close>

record fs_cache =
  cache :: "cache_e list"
  clock_cache :: nat
  eviction_lock :: bool
  fs_device :: block_dev

definition init_entry :: "cache_e \<Rightarrow> cache_e" where
  "init_entry c = c\<lparr>entry_lock := False, reader_count := 0, sec := - 1,
                    has_writer := False, flag := B_NOFLAG\<rparr>"

definition cache_init :: "fs_cache \<Rightarrow> fs_cache" where
  "cache_init s = s\<lparr>eviction_lock := False, cache := map init_entry (cache s)\<rparr>"

subsection \<open>Admission operations as a step relation\<close>

datatype adm_op = ReadAcquire | ReadRelease | WriteAcquire | WriteRelease

fun adm_apply :: "adm_op \<Rightarrow> cache_e \<Rightarrow> stop + cache_e" where
  "adm_apply ReadAcquire c = cache_read_acquire c"
| "adm_apply ReadRelease c = cache_read_release c"
| "adm_apply WriteAcquire c = cache_write_acquire c"
| "adm_apply WriteRelease c = cache_write_release c"

text \<open>
  \<open>adm_run cs0 tr cs\<close>: from the table \<open>cs0\<close> the completed admission calls \<open>tr\<close> (entry
  index and operation, oldest first) lead to the table \<open>cs\<close>. A blocked call takes no
  step, and a panic ends the run.
\<close>

inductive adm_run :: "cache_e list \<Rightarrow> (nat \<times> adm_op) list \<Rightarrow> cache_e list \<Rightarrow> bool"
  for cs0 :: "cache_e list" where
  adm_start: "adm_run cs0 [] cs0"
| adm_step: "adm_run cs0 tr cs \<Longrightarrow> i < length cs \<Longrightarrow> adm_apply op (cs ! i) = Inr e'
             \<Longrightarrow> adm_run cs0 (tr @ [(i, op)]) (cs[i := e'])"

text \<open>Write admissions on entry \<open>i\<close> granted in \<open>tr\<close> and not yet given back.\<close>

definition writers_held :: "nat \<Rightarrow> (nat \<times> adm_op) list \<Rightarrow> int" where
  "writers_held i tr =
     int (length (filter (\<lambda>x. x = (i, WriteAcquire)) tr))
     - int (length (filter (\<lambda>x. x = (i, WriteRelease)) tr))"


subsection \<open>Lookup\<close>

datatype write_flag_t = W_WRITE | W_READ | W_NO

text \<open>
  The scan of \<^verbatim>\<open>cacheGetIdx\<close>: the first index from \<open>i\<close> on whose entry holds \<open>sc\<close>.
  The loop returns at that index whatever the re-check under the entry lock says.
\<close>

function cacheGetIdx_scan :: "cache_e list \<Rightarrow> nat \<Rightarrow> block_sector_t \<Rightarrow> nat option" where
  "cacheGetIdx_scan cs i sc =
     (if i < length cs
      then (if sec (cs ! i) = sc then Some i else cacheGetIdx_scan cs (Suc i) sc)
      else None)"
  by pat_completeness auto
termination
  by (relation "measure (\<lambda>(cs, i, sc). length cs - i)") auto

declare cacheGetIdx_scan.simps [simp del]

text \<open>
  The admission both lookup paths take for the caller's mode: write admission and
  \<^verbatim>\<open>flag |= B_ALL\<close> for \<open>W_WRITE\<close>, read admission for \<open>W_READ\<close>, nothing for \<open>W_NO\<close>.
\<close>

definition admit :: "write_flag_t \<Rightarrow> cache_e \<Rightarrow> stop + cache_e" where
  "admit wflag c =
     (if wflag = W_WRITE
      then (case cache_write_acquire c of
              Inl x \<Rightarrow> Inl x
            | Inr c1 \<Rightarrow> Inr (c1\<lparr>flag := flag c1 OR B_ALL\<rparr>))
      else if wflag = W_READ then cache_read_acquire c
      else Inr c)"

text \<open>
  \<^verbatim>\<open>cacheGetIdx\<close> returns the index found, with its entry lock held by the caller, or
  \<open>None\<close> for \<^verbatim>\<open>NULL\<close>.
\<close>

definition cacheGetIdx ::
  "fs_cache \<Rightarrow> block_sector_t \<Rightarrow> write_flag_t \<Rightarrow> stop + (fs_cache \<times> nat option)" where
  "cacheGetIdx s sc wflag =
     (case cacheGetIdx_scan (cache s) 0 sc of
        None \<Rightarrow> Inr (s, None)
      | Some i \<Rightarrow>
          if entry_lock (cache s ! i) then Inl Blocked
          else let c = (cache s ! i)\<lparr>entry_lock := True\<rparr> in
            if sec c = sc
            then (case admit wflag c of
                    Inl x \<Rightarrow> Inl x
                  | Inr c1 \<Rightarrow>
                      Inr (s\<lparr>cache := (cache s)[i := c1\<lparr>flag := flag c1 OR B_RECENT\<rparr>]\<rparr>,
                           Some i))
            else Inr (s, None))"

subsection \<open>Clock eviction\<close>

definition cacheClockStep :: "fs_cache \<Rightarrow> fs_cache" where
  "cacheClockStep s =
     s\<lparr>clock_cache := (if clock_cache s = length (cache s) - 1 then 0
                        else clock_cache s + 1)\<rparr>"

text \<open>\<open>cacheEntryFlush s i g\<close> is the call on \<^verbatim>\<open>cache + i\<close> with \<^verbatim>\<open>get_entry_lock = g\<close>.\<close>

definition cacheEntryFlush :: "fs_cache \<Rightarrow> nat \<Rightarrow> bool \<Rightarrow> stop + fs_cache" where
  "cacheEntryFlush s i get_entry_lock =
     (if entry_lock (cache s ! i) then Inl Blocked
      else case cache_write_acquire ((cache s ! i)\<lparr>entry_lock := True\<rparr>) of
        Inl x \<Rightarrow> Inl x
      | Inr e \<Rightarrow>
          if reader_count e \<noteq> 0 then Inl Panic
          else if \<not> has_writer e then Inl Panic
          else
            let d = (if flag e AND B_DIRTY \<noteq> 0
                     then block_write (fs_device s) (sec e) (data e)
                     else fs_device s);
                e1 = e\<lparr>sec := - 1, flag := B_RECENT\<rparr>
            in case cache_write_release e1 of
                 Inl x \<Rightarrow> Inl x
               | Inr e2 \<Rightarrow>
                   Inr (s\<lparr>cache := (cache s)[i := (if get_entry_lock then e2
                                                     else e2\<lparr>entry_lock := False\<rparr>)],
                          fs_device := d\<rparr>))"

text \<open>
  The \<^verbatim>\<open>do ... while(true)\<close> of \<^verbatim>\<open>cacheEvict\<close>. \<open>cacheEvict_body\<close> is one pass
  through the body: it leaves the loop with the result of \<^verbatim>\<open>cacheEntryFlush\<close> on the
  entry under the hand, or goes on with the new \<open>try_count\<close> and state. \<open>standard\<close> is
  the hand's position when \<^verbatim>\<open>cacheEvict\<close> was entered, \<open>try_count\<close> the laps completed.
  \<open>cacheEvict_loop\<close> runs one pass for each unit of fuel. The victim is \<open>clock_cache\<close>
  of the state returned, and its entry lock is held.
\<close>

datatype loop_step = Break "stop + fs_cache" | Continue nat fs_cache

definition cacheEvict_body :: "nat \<Rightarrow> nat \<Rightarrow> fs_cache \<Rightarrow> loop_step" where
  "cacheEvict_body standard try_count s =
     (let s1 = cacheClockStep s;
          c = clock_cache s1;
          f = flag (cache s1 ! c)
      in if f AND B_ALL = 0 then Break (cacheEntryFlush s1 c True)
         else if try_count \<ge> 1 \<and> f = B_DIRTY then Break (cacheEntryFlush s1 c True)
         else
           let s2 = (if try_count \<ge> 1 \<and> f AND B_RECENT \<noteq> 0
                     then s1\<lparr>cache := (cache s1)[c := (cache s1 ! c)\<lparr>flag := f - B_RECENT\<rparr>]\<rparr>
                     else s1)
           in Continue (if standard = c then try_count + 1 else try_count) s2)"

fun cacheEvict_loop :: "nat \<Rightarrow> nat \<Rightarrow> nat \<Rightarrow> fs_cache \<Rightarrow> stop + fs_cache" where
  "cacheEvict_loop 0 standard try_count s = Inl OutOfFuel"
| "cacheEvict_loop (Suc n) standard try_count s =
     (case cacheEvict_body standard try_count s of
        Break r \<Rightarrow> r
      | Continue try_count1 s2 \<Rightarrow> cacheEvict_loop n standard try_count1 s2)"

definition cacheEvict :: "nat \<Rightarrow> fs_cache \<Rightarrow> stop + fs_cache" where
  "cacheEvict fuel s = cacheEvict_loop fuel (clock_cache s) 0 s"

subsection \<open>Read-ahead and the miss path\<close>

text \<open>
  Modelled from the spec: the size of a block, one device sector, is a configuration
  constant. In the code it is \<^verbatim>\<open>BLOCK_SECTOR_SIZE\<close> of \<^verbatim>\<open>devices/block.h\<close>, which is not
  part of the sources; it is 512 in Pintos, and the proofs below use only that it is
  positive.
  \<open>memcpy dst src n\<close> is the destination buffer after \<^verbatim>\<open>memcpy(dst, src, n)\<close>.
\<close>

definition BLOCK_SECTOR_SIZE :: nat where
  "BLOCK_SECTOR_SIZE = 512"

definition memcpy :: "block \<Rightarrow> block \<Rightarrow> nat \<Rightarrow> block" where
  "memcpy dst src n = take n src @ drop n dst"

text \<open>
  \<open>cacheLoadThread fuel s sc sema\<close> runs the loader for the \<^verbatim>\<open>ahead_set\<close> with sector
  \<open>sc\<close> and a semaphore of value \<open>sema\<close>; it returns the state and the value of the
  semaphore when the thread exits.
\<close>

definition cacheLoadThread ::
  "nat \<Rightarrow> fs_cache \<Rightarrow> block_sector_t \<Rightarrow> nat \<Rightarrow> stop + (fs_cache \<times> nat)" where
  "cacheLoadThread fuel s sc sema =
     (if sc \<ge> block_size (fs_device s) then Inr (s, sema + 1)
      else case cacheGetIdx s sc W_NO of
        Inl x \<Rightarrow> Inl x
      | Inr (s1, Some i) \<Rightarrow>
          Inr (s1\<lparr>cache := (cache s1)[i := (cache s1 ! i)\<lparr>entry_lock := False\<rparr>]\<rparr>, sema + 1)
      | Inr (s1, None) \<Rightarrow>
          if eviction_lock s1 then Inl Blocked
          else case cacheEvict fuel (s1\<lparr>eviction_lock := True\<rparr>) of
            Inl x \<Rightarrow> Inl x
          | Inr s2 \<Rightarrow>
              let i = clock_cache s2;
                  (b, d) = block_read (fs_device s2) sc;
                  e = (cache s2 ! i)\<lparr>sec := sc, data := b\<rparr>;
                  e1 = e\<lparr>flag := flag e OR B_RECENT, entry_lock := False\<rparr>
              in Inr (s2\<lparr>cache := (cache s2)[i := e1], fs_device := d,
                         eviction_lock := False\<rparr>, sema + 1))"

text \<open>
  The body of the \<^verbatim>\<open>while\<close> of \<^verbatim>\<open>cacheTryGetIdx\<close>, entered when the lookup has
  returned \<^verbatim>\<open>NULL\<close>. A failed \<^verbatim>\<open>lock_try_acquire\<close> sends the caller round the loop
  again, which is a busy-wait while the lock stays held. The loader thread created at
  the end is run at the point of \<^verbatim>\<open>sema_down\<close>, where the caller waits for it.
\<close>

definition cacheTryGetIdx_miss ::
  "nat \<Rightarrow> fs_cache \<Rightarrow> block_sector_t \<Rightarrow> write_flag_t \<Rightarrow> stop + (fs_cache \<times> nat)" where
  "cacheTryGetIdx_miss fuel s sc wflag =
     (if eviction_lock s then Inl Blocked
      else case cacheEvict fuel (s\<lparr>eviction_lock := True\<rparr>) of
        Inl x \<Rightarrow> Inl x
      | Inr s1 \<Rightarrow>
          let i = clock_cache s1;
              (b, d) = block_read (fs_device s1) sc;
              e = (cache s1 ! i)\<lparr>sec := sc, data := b\<rparr>;
              e1 = e\<lparr>flag := flag e OR B_RECENT, entry_lock := False\<rparr>
          in case admit wflag e1 of
               Inl x \<Rightarrow> Inl x
             | Inr e2 \<Rightarrow>
                 (case cacheLoadThread fuel
                         (s1\<lparr>cache := (cache s1)[i := e2], fs_device := d,
                             eviction_lock := False\<rparr>) (sc + 1) 0 of
                    Inl x \<Rightarrow> Inl x
                  | Inr (s2, sema) \<Rightarrow> if sema = 0 then Inl Blocked else Inr (s2, i)))"

definition cacheTryGetIdx ::
  "nat \<Rightarrow> fs_cache \<Rightarrow> block_sector_t \<Rightarrow> write_flag_t \<Rightarrow> stop + (fs_cache \<times> nat)" where
  "cacheTryGetIdx fuel s sc wflag =
     (case cacheGetIdx s sc wflag of
        Inl x \<Rightarrow> Inl x
      | Inr (s1, Some i) \<Rightarrow>
          Inr (s1\<lparr>cache := (cache s1)[i := (cache s1 ! i)\<lparr>entry_lock := False\<rparr>]\<rparr>, i)
      | Inr (s1, None) \<Rightarrow> cacheTryGetIdx_miss fuel s1 sc wflag)"

subsection \<open>Public operations\<close>

definition cache_write :: "nat \<Rightarrow> fs_cache \<Rightarrow> block_sector_t \<Rightarrow> block \<Rightarrow> stop + fs_cache" where
  "cache_write fuel s sc from =
     (case cacheTryGetIdx fuel s sc W_WRITE of
        Inl x \<Rightarrow> Inl x
      | Inr (s1, i) \<Rightarrow>
          let e = (cache s1 ! i)\<lparr>data := memcpy (data (cache s1 ! i)) from BLOCK_SECTOR_SIZE\<rparr>
          in case cache_write_release e of
               Inl x \<Rightarrow> Inl x
             | Inr e1 \<Rightarrow> Inr (s1\<lparr>cache := (cache s1)[i := e1]\<rparr>))"

text \<open>
  \<open>cache_write_finish s1 i from\<close> is the part of \<^verbatim>\<open>cache_write\<close> that follows the return
  of \<^verbatim>\<open>cacheTryGetIdx\<close> with entry \<open>i\<close>: the \<^verbatim>\<open>memcpy\<close> and the release. It is the
  step that is left to a thread that holds an entry for writing.
\<close>

definition cache_write_finish :: "fs_cache \<Rightarrow> nat \<Rightarrow> block \<Rightarrow> stop + fs_cache" where
  "cache_write_finish s1 i from =
     (let e = (cache s1 ! i)\<lparr>data := memcpy (data (cache s1 ! i)) from BLOCK_SECTOR_SIZE\<rparr>
      in case cache_write_release e of
           Inl x \<Rightarrow> Inl x
         | Inr e1 \<Rightarrow> Inr (s1\<lparr>cache := (cache s1)[i := e1]\<rparr>))"

text \<open>\<open>cache_read\<close> also returns the caller's buffer \<open>to\<close> as the call leaves it.\<close>

definition cache_read ::
  "nat \<Rightarrow> fs_cache \<Rightarrow> block_sector_t \<Rightarrow> block \<Rightarrow> stop + (fs_cache \<times> block)" where
  "cache_read fuel s sc to =
     (case cacheTryGetIdx fuel s sc W_READ of
        Inl x \<Rightarrow> Inl x
      | Inr (s1, i) \<Rightarrow>
          let to1 = memcpy to (data (cache s1 ! i)) BLOCK_SECTOR_SIZE
          in case cache_read_release (cache s1 ! i) of
               Inl x \<Rightarrow> Inl x
             | Inr e1 \<Rightarrow> Inr (s1\<lparr>cache := (cache s1)[i := e1]\<rparr>, to1))"

text \<open>The loop of \<^verbatim>\<open>cache_flush\<close> over the entries in table order.\<close>

fun cache_flush_entries :: "cache_e list \<Rightarrow> block_dev \<Rightarrow> cache_e list \<times> block_dev" where
  "cache_flush_entries [] d = ([], d)"
| "cache_flush_entries (c # cs) d =
     (if flag c AND B_DIRTY \<noteq> 0
      then (let (cs1, d1) = cache_flush_entries cs (block_write d (sec c) (data c))
            in (c\<lparr>flag := flag c - B_DIRTY\<rparr> # cs1, d1))
      else (let (cs1, d1) = cache_flush_entries cs d in (c # cs1, d1)))"

definition cache_flush :: "fs_cache \<Rightarrow> fs_cache" where
  "cache_flush s =
     (let (cs, d) = cache_flush_entries (cache s) (fs_device s)
      in s\<lparr>cache := cs, fs_device := d\<rparr>)"

subsection \<open>Threads inside the lookup/load path\<close>

text \<open>
  A thread inside \<^verbatim>\<open>cacheTryGetIdx\<close> is about to call \<^verbatim>\<open>cacheGetIdx\<close> (\<open>Looking\<close>), has
  got \<^verbatim>\<open>NULL\<close> from it and is about to try the eviction lock (\<open>Missed\<close>), or has
  returned with an entry (\<open>Holding\<close>). \<open>conc_step\<close> lets any thread take its next step:
  the lookup, and the body of the loop with its eviction and read-ahead, are one step
  each. \<open>conc_reach\<close> is its reflexive and transitive closure.
\<close>

datatype thread = Looking block_sector_t write_flag_t | Missed block_sector_t write_flag_t
  | Holding nat

inductive conc_step :: "nat \<Rightarrow> fs_cache \<times> thread list \<Rightarrow> fs_cache \<times> thread list \<Rightarrow> bool"
  for fuel :: nat where
  lookup_hit: "t < length ts \<Longrightarrow> ts ! t = Looking sc w \<Longrightarrow> cacheGetIdx s sc w = Inr (s1, Some i)
     \<Longrightarrow> conc_step fuel (s, ts)
           (s1\<lparr>cache := (cache s1)[i := (cache s1 ! i)\<lparr>entry_lock := False\<rparr>]\<rparr>, ts[t := Holding i])"
| lookup_miss: "t < length ts \<Longrightarrow> ts ! t = Looking sc w \<Longrightarrow> cacheGetIdx s sc w = Inr (s1, None)
     \<Longrightarrow> conc_step fuel (s, ts) (s1, ts[t := Missed sc w])"
| lock_busy: "t < length ts \<Longrightarrow> ts ! t = Missed sc w \<Longrightarrow> eviction_lock s
     \<Longrightarrow> conc_step fuel (s, ts) (s, ts[t := Looking sc w])"
| evict_load: "t < length ts \<Longrightarrow> ts ! t = Missed sc w \<Longrightarrow> cacheTryGetIdx_miss fuel s sc w = Inr (s1, i)
     \<Longrightarrow> conc_step fuel (s, ts) (s1, ts[t := Holding i])"

inductive conc_reach :: "nat \<Rightarrow> fs_cache \<times> thread list \<Rightarrow> fs_cache \<times> thread list \<Rightarrow> bool"
  for fuel :: nat where
  reach_refl: "conc_reach fuel c c"
| reach_step: "conc_reach fuel c c1 \<Longrightarrow> conc_step fuel c1 c2 \<Longrightarrow> conc_reach fuel c c2"

text \<open>No sector other than the empty sentinel is held by two entries.\<close>

definition sectors_unique :: "fs_cache \<Rightarrow> bool" where
  "sectors_unique s \<longleftrightarrow> distinct (filter (\<lambda>x. x \<noteq> 0xFFFFFFFF) (map sec (cache s)))"

subsection \<open>Measures and relations for the clock hand\<close>

text \<open>
  \<open>hand_dist n st c\<close>: the steps the hand takes from \<open>c\<close> until it stands on \<open>st\<close>
  again, in a table of \<open>n\<close> entries. \<open>recent_count\<close>: the entries whose recent bit is set.
\<close>

definition hand_dist :: "nat \<Rightarrow> nat \<Rightarrow> nat \<Rightarrow> nat" where
  "hand_dist n st c = (if c < st then st - c else st + n - c)"

definition recent_count :: "cache_e list \<Rightarrow> nat" where
  "recent_count cs = sum_list (map (\<lambda>e. if flag e AND B_RECENT \<noteq> 0 then 1 else 0) cs)"

text \<open>
  \<open>hand_next n c\<close> is the hand after one \<^verbatim>\<open>cacheClockStep\<close> from \<open>c\<close>. \<open>held_guard k laps s\<close>
  is what keeps the loop off an entry \<open>k\<close> that is held by somebody when \<^verbatim>\<open>cacheEvict\<close>
  starts with the hand on \<open>k\<close>: there are two entries or more; \<open>k\<close> is recent until
  the hand has passed it in the second lap; and its successor has lost its recent bit
  once the hand has passed it in the second lap.
\<close>

definition hand_next :: "nat \<Rightarrow> nat \<Rightarrow> nat" where
  "hand_next n c = (if c = n - 1 then 0 else c + 1)"

definition held_guard :: "nat \<Rightarrow> nat \<Rightarrow> fs_cache \<Rightarrow> bool" where
  "held_guard k laps s \<longleftrightarrow>
     2 \<le> length (cache s) \<and> k < length (cache s)
     \<and> (laps \<le> 1 \<longrightarrow> flag (cache s ! k) AND B_RECENT \<noteq> 0)
     \<and> (laps = 1 \<and> clock_cache s \<noteq> k \<longrightarrow>
            flag (cache s ! hand_next (length (cache s)) k) AND B_RECENT = 0)
     \<and> (2 \<le> laps \<longrightarrow> clock_cache s = k
            \<and> flag (cache s ! hand_next (length (cache s)) k) AND B_RECENT = 0)"

text \<open>
  \<open>demoted s s'\<close>: \<open>s'\<close> is \<open>s\<close> up to the clock hand and the flags, every dirty bit
  is as before and no flag has grown.
\<close>

definition demoted :: "fs_cache \<Rightarrow> fs_cache \<Rightarrow> bool" where
  "demoted s s' \<longleftrightarrow>
     length (cache s') = length (cache s) \<and> eviction_lock s' = eviction_lock s
     \<and> fs_device s' = fs_device s
     \<and> (\<forall>j < length (cache s).
           cache s' ! j = (cache s ! j)\<lparr>flag := flag (cache s' ! j)\<rparr>
           \<and> flag (cache s' ! j) AND B_DIRTY = flag (cache s ! j) AND B_DIRTY
           \<and> flag (cache s' ! j) \<le> flag (cache s ! j))"

text \<open>
  \<open>evicted_one s s'\<close>: exactly the entry under the hand of \<open>s'\<close> was evicted. It is
  empty, flagged \<open>B_RECENT\<close> and locked for the caller; its old data went to the device at
  its old sector if it was dirty; every other entry is as in \<open>s\<close> up to its flag, which
  has its dirty bit as before and has not grown.
\<close>

definition evicted_one :: "fs_cache \<Rightarrow> fs_cache \<Rightarrow> bool" where
  "evicted_one s s' \<longleftrightarrow>
     length (cache s') = length (cache s) \<and> clock_cache s' < length (cache s)
     \<and> eviction_lock s' = eviction_lock s
     \<and> cache s' ! clock_cache s'
         = (cache s ! clock_cache s')\<lparr>entry_lock := True, sec := - 1, flag := B_RECENT\<rparr>
     \<and> fs_device s'
         = (if flag (cache s ! clock_cache s') AND B_DIRTY \<noteq> 0
            then block_write (fs_device s) (sec (cache s ! clock_cache s'))
                   (data (cache s ! clock_cache s'))
            else fs_device s)
     \<and> (\<forall>j < length (cache s). j \<noteq> clock_cache s' \<longrightarrow>
           cache s' ! j = (cache s ! j)\<lparr>flag := flag (cache s' ! j)\<rparr>
           \<and> flag (cache s' ! j) AND B_DIRTY = flag (cache s ! j) AND B_DIRTY
           \<and> flag (cache s' ! j) \<le> flag (cache s ! j))"

subsection \<open>Start-up states\<close>

text \<open>
  The static storage before \<^verbatim>\<open>cache_init\<close> runs: a zeroed array of \<open>n\<close> entries and
  the clock hand at \<^verbatim>\<open>cache\<close>, over a device of \<open>k\<close> zeroed sectors.
\<close>

definition zero_entry :: cache_e where
  "zero_entry = \<lparr>entry_lock = False, reader_count = 0, has_writer = False, sec = 0,
                 flag = 0, data = replicate BLOCK_SECTOR_SIZE 0\<rparr>"

definition blank_dev :: "block_sector_t \<Rightarrow> block_dev" where
  "blank_dev k = \<lparr>contents = (\<lambda>_. replicate BLOCK_SECTOR_SIZE 0), dev_size = k, io_log = []\<rparr>"

definition boot :: "nat \<Rightarrow> block_sector_t \<Rightarrow> fs_cache" where
  "boot n k = \<lparr>cache = replicate n zero_entry, clock_cache = 0, eviction_lock = False,
               fs_device = blank_dev k\<rparr>"

text \<open>An entry nobody holds: no entry lock, no writer, no reader.\<close>

definition idle :: "cache_e \<Rightarrow> bool" where
  "idle c \<longleftrightarrow> \<not> entry_lock c \<and> \<not> has_writer c \<and> reader_count c = 0"

text \<open>
  A state between calls: at least two entries, the hand inside the table, the eviction
  lock free, and every entry with a flag among the four values of \<^verbatim>\<open>buf_flag_t\<close>, held
  by nobody, and with a buffer of one sector.
\<close>

definition quiescent :: "fs_cache \<Rightarrow> bool" where
  "quiescent s \<longleftrightarrow>
     2 \<le> length (cache s) \<and> clock_cache s < length (cache s) \<and> \<not> eviction_lock s
     \<and> (\<forall>e \<in> set (cache s). flag e \<le> 3 \<and> idle e \<and> length (data e) = BLOCK_SECTOR_SIZE)"

text \<open>A table of two entries with sector 5 resident and dirty in the second.\<close>

definition two_entries :: fs_cache where
  "two_entries =
     \<lparr>cache = [\<lparr>entry_lock = False, reader_count = 0, has_writer = False, sec = - 1,
                 flag = 0, data = replicate BLOCK_SECTOR_SIZE 0\<rparr>,
                \<lparr>entry_lock = False, reader_count = 0, has_writer = False, sec = 5,
                 flag = 3, data = replicate BLOCK_SECTOR_SIZE 7\<rparr>],
      clock_cache = 0, eviction_lock = False, fs_device = blank_dev 8\<rparr>"

text \<open>A table of two entries, both recently used and dirty.\<close>

definition hot_table :: fs_cache where
  "hot_table =
     \<lparr>cache = [\<lparr>entry_lock = False, reader_count = 0, has_writer = False, sec = 5,
                 flag = 3, data = replicate BLOCK_SECTOR_SIZE 7\<rparr>,
                \<lparr>entry_lock = False, reader_count = 0, has_writer = False, sec = 6,
                 flag = 3, data = replicate BLOCK_SECTOR_SIZE 9\<rparr>],
      clock_cache = 0, eviction_lock = False, fs_device = blank_dev 8\<rparr>"

text \<open>A table of a single, empty entry.\<close>

definition one_entry :: fs_cache where
  "one_entry =
     \<lparr>cache = [\<lparr>entry_lock = False, reader_count = 0, has_writer = False, sec = - 1,
                 flag = 0, data = replicate BLOCK_SECTOR_SIZE 0\<rparr>],
      clock_cache = 0, eviction_lock = False, fs_device = blank_dev 8\<rparr>"

text \<open>
  The states of a fresh cache of two entries over a device of 8 sectors after one and
  after two loads of sector 7 by eviction.
\<close>

definition race_mid :: fs_cache where
  "race_mid = (cache_init (boot 2 8))
     \<lparr>cache := [init_entry zero_entry,
                 (init_entry zero_entry)\<lparr>reader_count := 1, sec := 7, flag := 1\<rparr>],
      clock_cache := 1,
      fs_device := (blank_dev 8)\<lparr>io_log := [DevRead 7]\<rparr>\<rparr>"

definition race_end :: fs_cache where
  "race_end = (cache_init (boot 2 8))
     \<lparr>cache := [(init_entry zero_entry)\<lparr>reader_count := 1, sec := 7, flag := 1\<rparr>,
                 (init_entry zero_entry)\<lparr>reader_count := 1, sec := 7, flag := 1\<rparr>],
      clock_cache := 0,
      fs_device := (blank_dev 8)\<lparr>io_log := [DevRead 7, DevRead 7]\<rparr>\<rparr>"

text \<open>
  The states of a fresh cache of two entries over a device of 8 sectors while two
  threads write sector 7: after the first load by eviction (\<open>dup_mid\<close>), after the
  second (\<open>dup_held\<close>), after the first thread has stored a block of ones and released
  (\<open>dup_half\<close>), after the second has stored a block of twos and released (\<open>dup_table\<close>),
  and after a later write of a block of threes (\<open>dup_written\<close>).
\<close>

definition dup_mid :: fs_cache where
  "dup_mid = (cache_init (boot 2 8))
     \<lparr>cache := [init_entry zero_entry,
                 (init_entry zero_entry)\<lparr>has_writer := True, sec := 7, flag := 3\<rparr>],
      clock_cache := 1,
      fs_device := (blank_dev 8)\<lparr>io_log := [DevRead 7]\<rparr>\<rparr>"

definition dup_held :: fs_cache where
  "dup_held = (cache_init (boot 2 8))
     \<lparr>cache := [(init_entry zero_entry)\<lparr>has_writer := True, sec := 7, flag := 3\<rparr>,
                 (init_entry zero_entry)\<lparr>has_writer := True, sec := 7, flag := 3\<rparr>],
      clock_cache := 0,
      fs_device := (blank_dev 8)\<lparr>io_log := [DevRead 7, DevRead 7]\<rparr>\<rparr>"

definition dup_half :: fs_cache where
  "dup_half = dup_held
     \<lparr>cache := [(init_entry zero_entry)\<lparr>has_writer := True, sec := 7, flag := 3\<rparr>,
                 (init_entry zero_entry)\<lparr>sec := 7, flag := 3,
                                           data := replicate BLOCK_SECTOR_SIZE 1\<rparr>]\<rparr>"

definition dup_table :: fs_cache where
  "dup_table = dup_held
     \<lparr>cache := [(init_entry zero_entry)\<lparr>sec := 7, flag := 3,
                                           data := replicate BLOCK_SECTOR_SIZE 2\<rparr>,
                 (init_entry zero_entry)\<lparr>sec := 7, flag := 3,
                                           data := replicate BLOCK_SECTOR_SIZE 1\<rparr>]\<rparr>"

definition dup_written :: fs_cache where
  "dup_written = dup_held
     \<lparr>cache := [(init_entry zero_entry)\<lparr>sec := 7, flag := 3,
                                           data := replicate BLOCK_SECTOR_SIZE 3\<rparr>,
                 (init_entry zero_entry)\<lparr>sec := 7, flag := 3,
                                           data := replicate BLOCK_SECTOR_SIZE 1\<rparr>]\<rparr>"

section \<open>Record updates in field order\<close>

text \<open>Updates of different fields commute; these rules put them in the order of declaration.\<close>

lemma cache_e_upd_sort [simp]:
  "c\<lparr>reader_count := b, entry_lock := a\<rparr> = c\<lparr>entry_lock := a, reader_count := b\<rparr>"
  "c\<lparr>has_writer := d, entry_lock := a\<rparr> = c\<lparr>entry_lock := a, has_writer := d\<rparr>"
  "c\<lparr>sec := e, entry_lock := a\<rparr> = c\<lparr>entry_lock := a, sec := e\<rparr>"
  "c\<lparr>flag := f, entry_lock := a\<rparr> = c\<lparr>entry_lock := a, flag := f\<rparr>"
  "c\<lparr>data := g, entry_lock := a\<rparr> = c\<lparr>entry_lock := a, data := g\<rparr>"
  "c\<lparr>has_writer := d, reader_count := b\<rparr> = c\<lparr>reader_count := b, has_writer := d\<rparr>"
  "c\<lparr>sec := e, reader_count := b\<rparr> = c\<lparr>reader_count := b, sec := e\<rparr>"
  "c\<lparr>flag := f, reader_count := b\<rparr> = c\<lparr>reader_count := b, flag := f\<rparr>"
  "c\<lparr>data := g, reader_count := b\<rparr> = c\<lparr>reader_count := b, data := g\<rparr>"
  "c\<lparr>sec := e, has_writer := d\<rparr> = c\<lparr>has_writer := d, sec := e\<rparr>"
  "c\<lparr>flag := f, has_writer := d\<rparr> = c\<lparr>has_writer := d, flag := f\<rparr>"
  "c\<lparr>data := g, has_writer := d\<rparr> = c\<lparr>has_writer := d, data := g\<rparr>"
  "c\<lparr>flag := f, sec := e\<rparr> = c\<lparr>sec := e, flag := f\<rparr>"
  "c\<lparr>data := g, sec := e\<rparr> = c\<lparr>sec := e, data := g\<rparr>"
  "c\<lparr>data := g, flag := f\<rparr> = c\<lparr>flag := f, data := g\<rparr>"
  for c :: cache_e
  by (rule cache_e.equality; simp)+

lemma fs_cache_upd_sort [simp]:
  "s\<lparr>clock_cache := b, cache := a\<rparr> = s\<lparr>cache := a, clock_cache := b\<rparr>"
  "s\<lparr>eviction_lock := l, cache := a\<rparr> = s\<lparr>cache := a, eviction_lock := l\<rparr>"
  "s\<lparr>fs_device := d, cache := a\<rparr> = s\<lparr>cache := a, fs_device := d\<rparr>"
  "s\<lparr>eviction_lock := l, clock_cache := b\<rparr> = s\<lparr>clock_cache := b, eviction_lock := l\<rparr>"
  "s\<lparr>fs_device := d, clock_cache := b\<rparr> = s\<lparr>clock_cache := b, fs_device := d\<rparr>"
  "s\<lparr>fs_device := d, eviction_lock := l\<rparr> = s\<lparr>eviction_lock := l, fs_device := d\<rparr>"
  for s :: fs_cache
  by (rule fs_cache.equality; simp)+

section \<open>Admission\<close>

lemma adm_run_length: "adm_run cs0 tr cs \<Longrightarrow> length cs = length cs0"
  by (induction rule: adm_run.induct) auto

lemma adm_apply_excl:
  assumes "adm_apply op c = Inr c'"
    and "\<not> (has_writer c \<and> 0 < sint (reader_count c))"
  shows "\<not> (has_writer c' \<and> 0 < sint (reader_count c'))"
  using assms
  by (cases op)
     (auto simp: cache_read_acquire_def cache_read_release_def cache_write_acquire_def
                 cache_write_release_def split: if_splits)

lemma adm_apply_has_writer:
  assumes "adm_apply op c = Inr c'"
  shows "has_writer c' = (if op = WriteAcquire then True
                          else if op = WriteRelease then False else has_writer c)"
    and "op = WriteAcquire \<Longrightarrow> \<not> has_writer c"
    and "op = WriteRelease \<Longrightarrow> has_writer c"
  using assms
  by (cases op;
      auto simp: cache_read_acquire_def cache_read_release_def cache_write_acquire_def
                 cache_write_release_def split: if_splits)+

lemma adm_run_inv:
  assumes "adm_run cs0 tr cs"
    and "\<forall>c \<in> set cs0. \<not> has_writer c \<and> reader_count c = 0"
    and "\<forall>j. writers_held j [] = 0"
  shows "\<forall>i < length cs. \<not> (has_writer (cs ! i) \<and> 0 < sint (reader_count (cs ! i)))
                        \<and> writers_held i tr = (if has_writer (cs ! i) then 1 else 0)"
  using assms
proof (induction rule: adm_run.induct)
  case adm_start
  then show ?case by (auto simp: writers_held_def)
next
  case (adm_step tr cs i op e')
  show ?case
  proof (intro allI impI)
    fix j assume j: "j < length (cs[i := e'])"
    then have jl: "j < length cs" by simp
    from adm_step have ih: "\<not> (has_writer (cs ! j) \<and> 0 < sint (reader_count (cs ! j)))"
      "writers_held j tr = (if has_writer (cs ! j) then 1 else 0)"
      using jl by auto
    show "\<not> (has_writer (cs[i := e'] ! j) \<and> 0 < sint (reader_count (cs[i := e'] ! j)))
          \<and> writers_held j (tr @ [(i, op)]) = (if has_writer (cs[i := e'] ! j) then 1 else 0)"
    proof (cases "j = i")
      case False
      then show ?thesis using ih jl by (auto simp: writers_held_def)
    next
      case True
      from adm_step.hyps(3) ih True have ex: "\<not> (has_writer e' \<and> 0 < sint (reader_count e'))"
        using adm_apply_excl by blast
      have hw: "writers_held i (tr @ [(i, op)]) = (if has_writer e' then 1 else 0)"
        using adm_apply_has_writer[OF adm_step.hyps(3)] ih(2) True
        by (cases op) (auto simp: writers_held_def)
      show ?thesis using True ex hw jl by simp
    qed
  qed
qed

text \<open>
  C1. In every table reached from the initialised cache by completed admission calls, no
  entry has a writer and a positive reader count at once, and the write admissions
  granted on an entry and not yet released number at most one (exactly one when
  \<open>has_writer\<close> is set, none otherwise).
\<close>

theorem admission_mutual_exclusion:
  assumes "adm_run (cache (cache_init s0)) tr cs" and "i < length cs"
  shows "\<not> (has_writer (cs ! i) \<and> 0 < sint (reader_count (cs ! i)))
         \<and> writers_held i tr \<le> 1
         \<and> (has_writer (cs ! i) \<longleftrightarrow> writers_held i tr = 1)"
proof -
  have "\<forall>c \<in> set (cache (cache_init s0)). \<not> has_writer c \<and> reader_count c = 0"
    by (auto simp: cache_init_def init_entry_def)
  moreover have "\<forall>j. writers_held j [] = 0" by (simp add: writers_held_def)
  ultimately show ?thesis using adm_run_inv[OF assms(1)] assms(2) by auto
qed

theorem admission_mutual_exclusion_witness:
  "adm_run (cache (cache_init (boot 2 8))) [(0, ReadAcquire), (1, WriteAcquire)]
     ((cache (cache_init (boot 2 8)))
        [0 := init_entry zero_entry\<lparr>reader_count := 1\<rparr>,
         1 := init_entry zero_entry\<lparr>has_writer := True\<rparr>])
   \<and> writers_held 1 [(0, ReadAcquire), (1, WriteAcquire)] = 1
   \<and> writers_held 0 [(0, ReadAcquire), (1, WriteAcquire)] \<le> 1"
proof -
  let ?cs0 = "cache (cache_init (boot 2 8))"
  let ?cs1 = "?cs0[0 := init_entry zero_entry\<lparr>reader_count := 1\<rparr>]"
  let ?cs2 = "?cs1[1 := init_entry zero_entry\<lparr>has_writer := True\<rparr>]"
  have cs0: "?cs0 = [init_entry zero_entry, init_entry zero_entry]"
    by (simp add: cache_init_def boot_def numeral_2_eq_2)
  have r0: "adm_run ?cs0 [] ?cs0" by (rule adm_start)
  have "adm_run ?cs0 ([] @ [(0, ReadAcquire)]) ?cs1"
    by (rule adm_step[OF r0]) (simp_all add: cs0 cache_read_acquire_def init_entry_def)
  then have r1: "adm_run ?cs0 [(0, ReadAcquire)] ?cs1" by simp
  have "adm_run ?cs0 ([(0, ReadAcquire)] @ [(1, WriteAcquire)]) ?cs2"
    by (rule adm_step[OF r1])
       (simp_all add: cs0 cache_write_acquire_def init_entry_def zero_entry_def)
  then have r2: "adm_run ?cs0 [(0, ReadAcquire), (1, WriteAcquire)] ?cs2" by simp
  have l0: "0 < length ?cs2" and l1: "1 < length ?cs2" by (simp_all add: cs0)
  show ?thesis
    using r2 admission_mutual_exclusion[OF r2 l1] admission_mutual_exclusion[OF r2 l0]
    by (simp add: cs0 init_entry_def)
qed

section \<open>Releasing an admission that is not held\<close>

text \<open>
  C9. \<^verbatim>\<open>cache_write_release\<close> on an entry without a writer, and
  \<^verbatim>\<open>cache_read_release\<close> on an entry whose reader count is zero, fail their assertion:
  the kernel panics and no entry is returned.
\<close>

theorem release_not_held_panics:
  "(\<not> has_writer c \<longrightarrow> cache_write_release c = Inl Panic)
   \<and> (reader_count c = 0 \<longrightarrow> cache_read_release c = Inl Panic)"
  by (simp add: cache_write_release_def cache_read_release_def)

theorem release_not_held_panics_witness:
  "\<not> has_writer (init_entry zero_entry) \<and> reader_count (init_entry zero_entry) = 0
   \<and> cache_write_release (init_entry zero_entry) = Inl Panic
   \<and> cache_read_release (init_entry zero_entry) = Inl Panic"
  using release_not_held_panics[of "init_entry zero_entry"]
  by (simp add: init_entry_def)

section \<open>Flag arithmetic\<close>

lemma sub_bit_clears:
  fixes x :: "32 word"
  assumes "x AND 2 ^ n \<noteq> 0"
  shows "(x - 2 ^ n) AND 2 ^ n = 0"
proof -
  from assms have b: "bit x n" by (simp add: and_exp_eq_0_iff_not_bit)
  then have "unset_bit n x = x - 2 ^ n" by (simp add: unset_bit_eq)
  moreover have "\<not> bit (unset_bit n x) n" by (simp add: bit_unset_bit_iff)
  ultimately show ?thesis by (simp add: and_exp_eq_0_iff_not_bit)
qed

lemma sub_dirty_clean: "f AND B_DIRTY \<noteq> 0 \<Longrightarrow> (f - B_DIRTY) AND B_DIRTY = 0"
  using sub_bit_clears[of f 1] by (simp add: B_DIRTY_def)

lemma sub_recent_old: "f AND B_RECENT \<noteq> 0 \<Longrightarrow> (f - B_RECENT) AND B_RECENT = 0"
  using sub_bit_clears[of f 0] by (simp add: B_RECENT_def)

lemma flag_cases:
  fixes x :: "32 word"
  assumes "x \<le> 3"
  shows "x = 0 \<or> x = 1 \<or> x = 2 \<or> x = 3"
proof -
  from assms have "unat x \<le> 3" by (simp add: word_le_nat_alt)
  then have d: "unat x = 0 \<or> unat x = 1 \<or> unat x = 2 \<or> unat x = 3" by arith
  have r: "unat x = n \<Longrightarrow> x = of_nat n" for n by auto
  from d r[of 0] r[of 1] r[of 2] r[of 3] show ?thesis by auto
qed

section \<open>Flushing the victim\<close>

lemma idle_write_acquire:
  "idle c \<Longrightarrow> cache_write_acquire (c\<lparr>entry_lock := True\<rparr>)
               = Inr (c\<lparr>entry_lock := True, has_writer := True\<rparr>)"
  by (simp add: idle_def cache_write_acquire_def)

lemma cacheEntryFlush_idle:
  assumes "idle (cache s ! i)"
  shows "cacheEntryFlush s i g =
           Inr (s\<lparr>cache := (cache s)[i := (cache s ! i)\<lparr>entry_lock := g, has_writer := False,
                                                       sec := - 1, flag := B_RECENT\<rparr>],
                  fs_device := (if flag (cache s ! i) AND B_DIRTY \<noteq> 0
                                then block_write (fs_device s) (sec (cache s ! i))
                                       (data (cache s ! i))
                                else fs_device s)\<rparr>)"
proof -
  have r: "reader_count (cache s ! i) = 0" "\<not> entry_lock (cache s ! i)"
    using assms by (simp_all add: idle_def)
  show ?thesis
    by (cases g)
       (simp_all add: cacheEntryFlush_def idle_write_acquire[OF assms] r
                      cache_write_release_def Let_def)
qed

lemma cacheEntryFlush_Inr_idle:
  assumes "cacheEntryFlush s i g = Inr s'"
  shows "idle (cache s ! i)"
  using assms
  by (auto simp: cacheEntryFlush_def idle_def cache_write_acquire_def
           split: if_splits sum.splits)

text \<open>
  C2. \<^verbatim>\<open>cacheEntryFlush\<close> completes on an entry nobody holds. Whenever it completes,
  the write admission it took was granted with \<open>reader_count = 0\<close> and
  \<open>has_writer\<close> set; the device is the old device with the entry's data written at
  the entry's sector if the entry was dirty, and untouched otherwise; and in the state
  returned the entry's sector is the empty sentinel \<open>0xFFFFFFFF\<close>, its recent bit is set,
  its dirty bit is clear and it has no writer.
\<close>

theorem cacheEntryFlush_victim:
  "(idle (cache s ! i) \<longrightarrow> (\<exists>s'. cacheEntryFlush s i g = Inr s'))
   \<and> (cacheEntryFlush s i g = Inr s' \<and> i < length (cache s) \<longrightarrow>
        (\<exists>e. cache_write_acquire ((cache s ! i)\<lparr>entry_lock := True\<rparr>) = Inr e
              \<and> reader_count e = 0 \<and> has_writer e)
        \<and> fs_device s' = (if flag (cache s ! i) AND B_DIRTY \<noteq> 0
                           then block_write (fs_device s) (sec (cache s ! i))
                                  (data (cache s ! i))
                           else fs_device s)
        \<and> sec (cache s' ! i) = 0xFFFFFFFF
        \<and> flag (cache s' ! i) AND B_RECENT \<noteq> 0
        \<and> flag (cache s' ! i) AND B_DIRTY = 0
        \<and> \<not> has_writer (cache s' ! i)
        \<and> entry_lock (cache s' ! i) = g)"
proof (intro conjI impI)
  assume "idle (cache s ! i)"
  then show "\<exists>s'. cacheEntryFlush s i g = Inr s'"
    by (simp add: cacheEntryFlush_idle)
next
  assume a: "cacheEntryFlush s i g = Inr s' \<and> i < length (cache s)"
  then have id: "idle (cache s ! i)" using cacheEntryFlush_Inr_idle by blast
  have e: "cache_write_acquire ((cache s ! i)\<lparr>entry_lock := True\<rparr>)
             = Inr ((cache s ! i)\<lparr>entry_lock := True, has_writer := True\<rparr>)"
    by (rule idle_write_acquire[OF id])
  from id have r0: "reader_count (cache s ! i) = 0" by (simp add: idle_def)
  show "\<exists>e. cache_write_acquire ((cache s ! i)\<lparr>entry_lock := True\<rparr>) = Inr e
             \<and> reader_count e = 0 \<and> has_writer e"
    using e r0 by simp
  from a have s': "s' = s\<lparr>cache := (cache s)[i := (cache s ! i)\<lparr>entry_lock := g, has_writer := False,
                                                            sec := - 1, flag := B_RECENT\<rparr>],
                   fs_device := (if flag (cache s ! i) AND B_DIRTY \<noteq> 0
                                 then block_write (fs_device s) (sec (cache s ! i))
                                        (data (cache s ! i))
                                 else fs_device s)\<rparr>"
    by (simp add: cacheEntryFlush_idle[OF id])
  show "fs_device s' = (if flag (cache s ! i) AND B_DIRTY \<noteq> 0
                        then block_write (fs_device s) (sec (cache s ! i)) (data (cache s ! i))
                        else fs_device s)"
    by (simp add: s')
  show "sec (cache s' ! i) = 0xFFFFFFFF" using a by (simp add: s')
  show "flag (cache s' ! i) AND B_RECENT \<noteq> 0" using a by (simp add: s' B_RECENT_def)
  show "flag (cache s' ! i) AND B_DIRTY = 0" using a by (simp add: s' B_RECENT_def B_DIRTY_def)
  show "\<not> has_writer (cache s' ! i)" using a id by (simp add: s' idle_def)
  show "entry_lock (cache s' ! i) = g" using a by (simp add: s')
qed

theorem cacheEntryFlush_victim_witness:
  "idle (cache two_entries ! 1)
   \<and> cacheEntryFlush two_entries 1 True
       = Inr (two_entries\<lparr>cache := (cache two_entries)
                 [1 := (cache two_entries ! 1)\<lparr>entry_lock := True, has_writer := False,
                                                sec := - 1, flag := B_RECENT\<rparr>],
               fs_device := block_write (blank_dev 8) 5 (replicate BLOCK_SECTOR_SIZE 7)\<rparr>)
   \<and> 1 < length (cache two_entries)
   \<and> fs_device (two_entries\<lparr>cache := (cache two_entries)
                 [1 := (cache two_entries ! 1)\<lparr>entry_lock := True, has_writer := False,
                                                sec := - 1, flag := B_RECENT\<rparr>],
               fs_device := block_write (blank_dev 8) 5 (replicate BLOCK_SECTOR_SIZE 7)\<rparr>)
       = block_write (fs_device two_entries) 5 (replicate BLOCK_SECTOR_SIZE 7)"
proof -
  let ?r = "two_entries\<lparr>cache := (cache two_entries)
                 [1 := (cache two_entries ! 1)\<lparr>entry_lock := True, has_writer := False,
                                                sec := - 1, flag := B_RECENT\<rparr>],
               fs_device := block_write (blank_dev 8) 5 (replicate BLOCK_SECTOR_SIZE 7)\<rparr>"
  have i: "idle (cache two_entries ! 1)" by (simp add: two_entries_def idle_def)
  have r: "cacheEntryFlush two_entries 1 True = Inr ?r"
    by (subst cacheEntryFlush_idle[OF i]) (simp add: two_entries_def B_DIRTY_def)
  have l: "1 < length (cache two_entries)" by (simp add: two_entries_def)
  have d: "fs_device ?r = block_write (fs_device two_entries) 5 (replicate BLOCK_SECTOR_SIZE 7)"
    by (simp add: two_entries_def)
  from cacheEntryFlush_victim[of two_entries 1 True ?r] i r l d show ?thesis by blast
qed

section \<open>Flushing the whole cache\<close>

lemma cache_flush_entries_clean:
  "cache_flush_entries cs d = (cs', d') \<Longrightarrow> \<forall>c \<in> set cs'. flag c AND B_DIRTY = 0"
proof (induction cs arbitrary: d cs' d')
  case Nil
  then show ?case by simp
next
  case (Cons c cs)
  then show ?case
    by (auto simp: sub_dirty_clean split: if_splits prod.splits)
qed

lemma cache_flush_entries_noop:
  "\<forall>c \<in> set cs. flag c AND B_DIRTY = 0 \<Longrightarrow> cache_flush_entries cs d = (cs, d)"
  by (induction cs arbitrary: d) auto

text \<open>
  C7. After one \<^verbatim>\<open>cache_flush\<close> no entry is dirty, and a second call right after it
  changes nothing: the device, with its log of transfers, is the one the first call left.
\<close>

theorem cache_flush_idempotent:
  "cache_flush (cache_flush s) = cache_flush s
   \<and> io_log (fs_device (cache_flush (cache_flush s))) = io_log (fs_device (cache_flush s))
   \<and> (\<forall>c \<in> set (cache (cache_flush s)). flag c AND B_DIRTY = 0)"
proof -
  obtain cs d where f: "cache_flush_entries (cache s) (fs_device s) = (cs, d)"
    by (cases "cache_flush_entries (cache s) (fs_device s)")
  then have s1: "cache_flush s = s\<lparr>cache := cs, fs_device := d\<rparr>"
    by (simp add: cache_flush_def)
  have clean: "\<forall>c \<in> set cs. flag c AND B_DIRTY = 0"
    using cache_flush_entries_clean[OF f] .
  then have "cache_flush_entries cs d = (cs, d)" by (rule cache_flush_entries_noop)
  then have "cache_flush (s\<lparr>cache := cs, fs_device := d\<rparr>) = s\<lparr>cache := cs, fs_device := d\<rparr>"
    by (simp add: cache_flush_def)
  then show ?thesis using clean unfolding s1 by simp
qed

theorem cache_flush_idempotent_witness:
  "io_log (fs_device (cache_flush two_entries))
     = [DevWrite 5 (replicate BLOCK_SECTOR_SIZE 7)]
   \<and> io_log (fs_device (cache_flush (cache_flush two_entries)))
     = [DevWrite 5 (replicate BLOCK_SECTOR_SIZE 7)]
   \<and> map flag (cache (cache_flush (cache_flush two_entries))) = [0, 1]"
proof -
  have "io_log (fs_device (cache_flush two_entries))
          = [DevWrite 5 (replicate BLOCK_SECTOR_SIZE 7)]"
    and "map flag (cache (cache_flush two_entries)) = [0, 1]"
    by (simp_all add: cache_flush_def two_entries_def B_DIRTY_def block_write_def blank_dev_def)
  then show ?thesis using cache_flush_idempotent[of two_entries] by simp
qed

section \<open>Read-ahead past the end of the device\<close>

text \<open>
  C8. For a target sector at or past the size of the device \<^verbatim>\<open>cacheLoadThread\<close> only
  raises its semaphore: the state it leaves (every entry, the clock hand, the device and
  its log of transfers) is the state it found.
\<close>

theorem cacheLoadThread_past_end:
  "sc \<ge> block_size (fs_device s) \<Longrightarrow> cacheLoadThread fuel s sc sema = Inr (s, sema + 1)"
  by (simp add: cacheLoadThread_def)

theorem cacheLoadThread_past_end_witness:
  "(8 :: block_sector_t) \<ge> block_size (fs_device two_entries)
   \<and> cacheLoadThread 5 two_entries 8 0 = Inr (two_entries, 1)"
proof -
  have h: "(8 :: block_sector_t) \<ge> block_size (fs_device two_entries)"
    by (simp add: block_size_def two_entries_def blank_dev_def)
  from cacheLoadThread_past_end[OF h, of 5 0] h show ?thesis by simp
qed

section \<open>Lookup\<close>

lemma scan_Some:
  "cacheGetIdx_scan cs i sc = Some k \<Longrightarrow>
     i \<le> k \<and> k < length cs \<and> sec (cs ! k) = sc \<and> (\<forall>j. i \<le> j \<and> j < k \<longrightarrow> sec (cs ! j) \<noteq> sc)"
proof (induction cs i sc rule: cacheGetIdx_scan.induct)
  case (1 cs i sc)
  show ?case
  proof (cases "i < length cs \<and> sec (cs ! i) \<noteq> sc")
    case True
    then have "cacheGetIdx_scan cs (Suc i) sc = Some k"
      using "1.prems" by (simp add: cacheGetIdx_scan.simps[of cs i])
    with True "1.IH" have ih: "Suc i \<le> k \<and> k < length cs \<and> sec (cs ! k) = sc
        \<and> (\<forall>j. Suc i \<le> j \<and> j < k \<longrightarrow> sec (cs ! j) \<noteq> sc)" by simp
    have "sec (cs ! j) \<noteq> sc" if "i \<le> j" "j < k" for j
      using that ih True by (cases "j = i") auto
    with ih show ?thesis by auto
  next
    case False
    then show ?thesis using "1.prems"
      by (auto simp: cacheGetIdx_scan.simps[of cs i] split: if_splits)
  qed
qed

lemma scan_None:
  "cacheGetIdx_scan cs i sc = None \<Longrightarrow> \<forall>j. i \<le> j \<and> j < length cs \<longrightarrow> sec (cs ! j) \<noteq> sc"
proof (induction cs i sc rule: cacheGetIdx_scan.induct)
  case (1 cs i sc)
  show ?case
  proof (cases "i < length cs")
    case True
    with "1.prems" have ne: "sec (cs ! i) \<noteq> sc" and r: "cacheGetIdx_scan cs (Suc i) sc = None"
      by (auto simp: cacheGetIdx_scan.simps[of cs i] split: if_splits)
    with True "1.IH" have ih: "\<forall>j. Suc i \<le> j \<and> j < length cs \<longrightarrow> sec (cs ! j) \<noteq> sc" by simp
    have "sec (cs ! j) \<noteq> sc" if "i \<le> j" "j < length cs" for j
      using that ih ne by (cases "j = i") auto
    then show ?thesis by auto
  next
    case False
    then show ?thesis by auto
  qed
qed

lemma scan_first:
  assumes "k < length cs" "sec (cs ! k) = sc" "\<forall>j. i \<le> j \<and> j < k \<longrightarrow> sec (cs ! j) \<noteq> sc" "i \<le> k"
  shows "cacheGetIdx_scan cs i sc = Some k"
proof (cases "cacheGetIdx_scan cs i sc")
  case None
  from scan_None[OF None] assms show ?thesis by auto
next
  case (Some k')
  from scan_Some[OF Some] assms have "k' = k"
    by (metis linorder_neqE_nat)
  with Some show ?thesis by simp
qed

lemma bit1_of_3: "bit (3::32 word) (Suc 0)"
  by (simp add: bit_Suc)

lemma or_all_bit1: "bit (((f::32 word) OR 3) OR 1) (Suc 0)"
  by (simp only: bit_or_iff bit1_of_3) simp

lemma or_dirty: "((f OR B_ALL) OR B_RECENT) AND B_DIRTY \<noteq> 0"
proof -
  have "((f OR 3) OR 1) AND 2 ^ Suc 0 \<noteq> 0"
    unfolding and_exp_eq_0_iff_not_bit using or_all_bit1 by blast
  then show ?thesis by (simp add: B_ALL_def B_RECENT_def B_DIRTY_def)
qed

lemma entry_noop [simp]:
  "\<not> entry_lock c \<Longrightarrow> c\<lparr>entry_lock := False\<rparr> = c"
  "\<not> has_writer c \<Longrightarrow> c\<lparr>has_writer := False\<rparr> = c"
  by (rule cache_e.equality; simp)+

lemma cacheGetIdx_hit:
  assumes "cacheGetIdx_scan (cache s) 0 sc = Some k"
    and "\<not> entry_lock (cache s ! k)"
    and "admit wflag ((cache s ! k)\<lparr>entry_lock := True\<rparr>) = Inr c1"
  shows "cacheGetIdx s sc wflag
           = Inr (s\<lparr>cache := (cache s)[k := c1\<lparr>flag := flag c1 OR B_RECENT\<rparr>]\<rparr>, Some k)"
  using assms scan_Some[OF assms(1)]
  by (simp add: cacheGetIdx_def Let_def)

lemma cacheTryGetIdx_hit:
  assumes "cacheGetIdx_scan (cache s) 0 sc = Some k"
    and "\<not> entry_lock (cache s ! k)"
    and "admit wflag ((cache s ! k)\<lparr>entry_lock := True\<rparr>) = Inr c1"
  shows "cacheTryGetIdx fuel s sc wflag
           = Inr (s\<lparr>cache := (cache s)[k := c1\<lparr>entry_lock := False, flag := flag c1 OR B_RECENT\<rparr>]\<rparr>, k)"
  using scan_Some[OF assms(1)]
  by (simp add: cacheTryGetIdx_def cacheGetIdx_hit[OF assms])


lemma admit_read:
  assumes "\<not> has_writer c"
  shows "admit W_READ (c\<lparr>entry_lock := True\<rparr>)
                = Inr (c\<lparr>entry_lock := True, reader_count := reader_count c + 1\<rparr>)"
      using assms by (simp add: admit_def cache_read_acquire_def)

lemma admit_write:
  assumes "\<not> has_writer c" "\<not> 0 < sint (reader_count c)"
  shows "admit W_WRITE (c\<lparr>entry_lock := True\<rparr>)
                = Inr (c\<lparr>entry_lock := True, has_writer := True, flag := flag c OR B_ALL\<rparr>)"
      using assms by (simp add: admit_def cache_write_acquire_def)


lemma cache_read_hit:
  assumes sc: "cacheGetIdx_scan (cache s) 0 sc = Some k"
    and "\<not> entry_lock (cache s ! k)" and "\<not> has_writer (cache s ! k)"
    and rc: "0 < sint (reader_count (cache s ! k) + 1)"
  shows "cache_read fuel s sc to
           = Inr (s\<lparr>cache := (cache s)[k := (cache s ! k)\<lparr>flag := flag (cache s ! k) OR B_RECENT\<rparr>]\<rparr>,
                  memcpy to (data (cache s ! k)) BLOCK_SECTOR_SIZE)"
proof -
  have k: "k < length (cache s)" using scan_Some[OF sc] by simp
  note h = cacheTryGetIdx_hit[OF sc assms(2) admit_read[OF assms(3)]]
  show ?thesis
    unfolding cache_read_def h
    using k rc assms(2) by (simp add: cache_read_release_def)
qed


lemma cache_write_hit:
  assumes sc: "cacheGetIdx_scan (cache s) 0 sc = Some k"
    and "\<not> entry_lock (cache s ! k)" and "\<not> has_writer (cache s ! k)"
    and rc: "\<not> 0 < sint (reader_count (cache s ! k))"
  shows "cache_write fuel s sc from
           = Inr (s\<lparr>cache := (cache s)[k := (cache s ! k)
                    \<lparr>flag := (flag (cache s ! k) OR B_ALL) OR B_RECENT,
                     data := memcpy (data (cache s ! k)) from BLOCK_SECTOR_SIZE\<rparr>]\<rparr>)"
proof -
  have k: "k < length (cache s)" using scan_Some[OF sc] by simp
  note h = cacheTryGetIdx_hit[OF sc assms(2) admit_write[OF assms(3) rc]]
  show ?thesis
    unfolding cache_write_def h
    using k assms(2,3) by (simp add: cache_write_release_def)
qed

section \<open>The sentinel as a sector id\<close>

text \<open>
  C10. \<^verbatim>\<open>cache_init\<close> and \<^verbatim>\<open>cacheEntryFlush\<close> store \<open>- 1\<close>, which is the sector id
  \<open>0xFFFFFFFF\<close>, in an empty entry, and the lookup compares sector ids with equality.
  So when \<open>k\<close> is the first empty entry and is neither locked nor held by a writer, a
  \<^verbatim>\<open>cache_read\<close> of sector \<open>0xFFFFFFFF\<close> (the count of readers not overflowing) returns
  the bytes already in that entry, and a \<^verbatim>\<open>cache_write\<close> of it (no reader on the entry)
  overwrites them and leaves the entry dirty; in both cases the device, with its log of
  transfers, is untouched and the entry still holds \<open>0xFFFFFFFF\<close>.
\<close>

theorem sentinel_sector_hits_empty_slot:
  assumes "k < length (cache s)"
    and "sec (cache s ! k) = 0xFFFFFFFF"
    and "\<forall>j < k. sec (cache s ! j) \<noteq> 0xFFFFFFFF"
    and "\<not> entry_lock (cache s ! k)" and "\<not> has_writer (cache s ! k)"
  shows "(0 < sint (reader_count (cache s ! k) + 1) \<longrightarrow>
          (\<exists>s'. cache_read fuel s 0xFFFFFFFF to
                   = Inr (s', memcpy to (data (cache s ! k)) BLOCK_SECTOR_SIZE)
                \<and> fs_device s' = fs_device s
                \<and> sec (cache s' ! k) = 0xFFFFFFFF
                \<and> data (cache s' ! k) = data (cache s ! k)))
       \<and> (\<not> 0 < sint (reader_count (cache s ! k)) \<longrightarrow>
          (\<exists>s'. cache_write fuel s 0xFFFFFFFF from = Inr s'
                \<and> fs_device s' = fs_device s
                \<and> sec (cache s' ! k) = 0xFFFFFFFF
                \<and> data (cache s' ! k) = memcpy (data (cache s ! k)) from BLOCK_SECTOR_SIZE
                \<and> flag (cache s' ! k) AND B_DIRTY \<noteq> 0))"
proof (intro conjI impI)
  have sc: "cacheGetIdx_scan (cache s) 0 0xFFFFFFFF = Some k"
    using assms(1,2,3) by (intro scan_first) auto
  {
    assume rc: "0 < sint (reader_count (cache s ! k) + 1)"
    show "\<exists>s'. cache_read fuel s 0xFFFFFFFF to
                   = Inr (s', memcpy to (data (cache s ! k)) BLOCK_SECTOR_SIZE)
                \<and> fs_device s' = fs_device s
                \<and> sec (cache s' ! k) = 0xFFFFFFFF
                \<and> data (cache s' ! k) = data (cache s ! k)"
      unfolding cache_read_hit[OF sc assms(4,5) rc] using assms(1,2) by simp
  }
  {
    assume rc: "\<not> 0 < sint (reader_count (cache s ! k))"
    show "\<exists>s'. cache_write fuel s 0xFFFFFFFF from = Inr s'
                \<and> fs_device s' = fs_device s
                \<and> sec (cache s' ! k) = 0xFFFFFFFF
                \<and> data (cache s' ! k) = memcpy (data (cache s ! k)) from BLOCK_SECTOR_SIZE
                \<and> flag (cache s' ! k) AND B_DIRTY \<noteq> 0"
      unfolding cache_write_hit[OF sc assms(4,5) rc] using assms(1,2) or_dirty by simp
  }
qed


theorem sentinel_sector_hits_empty_slot_witness:
  "0 < length (cache two_entries)
   \<and> sec (cache two_entries ! 0) = 0xFFFFFFFF
   \<and> \<not> entry_lock (cache two_entries ! 0) \<and> \<not> has_writer (cache two_entries ! 0)
   \<and> 0 < sint (reader_count (cache two_entries ! 0) + 1)
   \<and> \<not> 0 < sint (reader_count (cache two_entries ! 0))
   \<and> (\<exists>s'. cache_read 0 two_entries 0xFFFFFFFF []
               = Inr (s', memcpy [] (data (cache two_entries ! 0)) BLOCK_SECTOR_SIZE)
             \<and> fs_device s' = fs_device two_entries)
   \<and> (\<exists>s'. cache_write 0 two_entries 0xFFFFFFFF (replicate BLOCK_SECTOR_SIZE 9) = Inr s'
             \<and> fs_device s' = fs_device two_entries
             \<and> flag (cache s' ! 0) AND B_DIRTY \<noteq> 0)"
proof -
  have h: "0 < length (cache two_entries)" "sec (cache two_entries ! 0) = 0xFFFFFFFF"
    "\<forall>j < 0. sec (cache two_entries ! j) \<noteq> 0xFFFFFFFF"
    "\<not> entry_lock (cache two_entries ! 0)" "\<not> has_writer (cache two_entries ! 0)"
    by (simp_all add: two_entries_def)
  have r: "0 < sint (reader_count (cache two_entries ! 0) + 1)"
    "\<not> 0 < sint (reader_count (cache two_entries ! 0))"
    by (simp_all add: two_entries_def)
  from sentinel_sector_hits_empty_slot[OF h, of 0 "[]" "replicate BLOCK_SECTOR_SIZE 9"] h r
  show ?thesis by blast
qed

section \<open>Clock eviction\<close>

lemma clock_step_lt:
  "0 < length (cache s) \<Longrightarrow> clock_cache s < length (cache s)
     \<Longrightarrow> clock_cache (cacheClockStep s) < length (cache s)"
  by (auto simp: cacheClockStep_def)

lemma hand_dist_step:
  assumes "c < n" "st < n"
  shows "(if c = n - 1 then 0 else c + 1) = st \<or>
         hand_dist n st (if c = n - 1 then 0 else c + 1) + 1 = hand_dist n st c"
  using assms by (auto simp: hand_dist_def)

lemma hand_dist_pos: "c < n \<Longrightarrow> st < n \<Longrightarrow> 0 < hand_dist n st c"
  by (auto simp: hand_dist_def)

lemma hand_dist_le: "c < n \<Longrightarrow> st < n \<Longrightarrow> hand_dist n st c \<le> n"
  by (auto simp: hand_dist_def)

lemma recent_count_le: "recent_count cs \<le> length cs"
  unfolding recent_count_def
  by (induction cs) auto

lemma recent_count_demote:
  assumes "c < length cs" "flag (cs ! c) AND B_RECENT \<noteq> 0"
  shows "recent_count (cs[c := (cs ! c)\<lparr>flag := flag (cs ! c) - B_RECENT\<rparr>]) + 1 = recent_count cs"
proof -
  let ?g = "\<lambda>e. if flag e AND B_RECENT \<noteq> 0 then 1 else (0::nat)"
  have a: "map ?g (cs[c := (cs ! c)\<lparr>flag := flag (cs ! c) - B_RECENT\<rparr>]) = (map ?g cs)[c := 0]"
    using assms by (simp add: map_update sub_recent_old)
  have b: "map ?g cs ! c = 1" using assms by simp
  have "sum_list ((map ?g cs)[c := 0]) = sum_list (map ?g cs) + 0 - (map ?g cs) ! c"
    using assms(1) by (subst sum_list_update) simp_all
  moreover have "map ?g cs ! c \<le> sum_list (map ?g cs)"
    using assms(1) by (intro elem_le_sum_list) simp
  then have "1 \<le> sum_list (map ?g cs)" unfolding b .
  ultimately show ?thesis unfolding recent_count_def a using b by simp
qed


lemma demoted_evicted:
  assumes "demoted s s1" "evicted_one s1 s'"
  shows "evicted_one s s'"
proof -
  let ?v = "clock_cache s'"
  have l: "length (cache s1) = length (cache s)" and v: "?v < length (cache s)"
    using assms by (simp_all add: demoted_def evicted_one_def)
  have d: "\<And>j. j < length (cache s) \<Longrightarrow> cache s1 ! j = (cache s ! j)\<lparr>flag := flag (cache s1 ! j)\<rparr>
           \<and> flag (cache s1 ! j) AND B_DIRTY = flag (cache s ! j) AND B_DIRTY"
    and dl: "\<And>j. j < length (cache s) \<Longrightarrow> flag (cache s1 ! j) \<le> flag (cache s ! j)"
    using assms(1) by (simp_all add: demoted_def)
  have fields: "sec (cache s1 ! j) = sec (cache s ! j)" "data (cache s1 ! j) = data (cache s ! j)"
    if "j < length (cache s)" for j
    using d[OF that] by (metis cache_e.select_convs cache_e.surjective cache_e.update_convs)+
  have e1: "cache s' ! ?v = (cache s1 ! ?v)\<lparr>entry_lock := True, sec := - 1, flag := B_RECENT\<rparr>"
    using assms(2) by (simp add: evicted_one_def)
  have "cache s' ! ?v = (cache s ! ?v)\<lparr>entry_lock := True, sec := - 1, flag := B_RECENT\<rparr>"
    by (subst e1, subst conjunct1[OF d[OF v]]) simp
  moreover have "fs_device s'
         = (if flag (cache s ! ?v) AND B_DIRTY \<noteq> 0
            then block_write (fs_device s) (sec (cache s ! ?v)) (data (cache s ! ?v))
            else fs_device s)"
    using assms d[OF v] fields[OF v] by (simp add: evicted_one_def demoted_def)
  moreover have "cache s' ! j = (cache s ! j)\<lparr>flag := flag (cache s' ! j)\<rparr>
           \<and> flag (cache s' ! j) AND B_DIRTY = flag (cache s ! j) AND B_DIRTY
           \<and> flag (cache s' ! j) \<le> flag (cache s ! j)"
    if j: "j < length (cache s)" "j \<noteq> ?v" for j
  proof -
    have a: "cache s' ! j = (cache s1 ! j)\<lparr>flag := flag (cache s' ! j)\<rparr>"
      and b: "flag (cache s' ! j) AND B_DIRTY = flag (cache s1 ! j) AND B_DIRTY"
      and c: "flag (cache s' ! j) \<le> flag (cache s1 ! j)"
      using assms(2) j l by (simp_all add: evicted_one_def)
    have "cache s' ! j = (cache s ! j)\<lparr>flag := flag (cache s' ! j)\<rparr>"
      by (subst a, subst conjunct1[OF d[OF j(1)]]) simp
    moreover have "flag (cache s' ! j) \<le> flag (cache s ! j)"
      using c dl[OF j(1)] by (rule order_trans)
    ultimately show ?thesis using b d[OF j(1)] by simp
  qed
  ultimately show ?thesis using assms l v by (simp add: evicted_one_def demoted_def)
qed


lemma demote_flag:
  fixes f :: "32 word"
  assumes "f \<le> 3" "f AND B_ALL \<noteq> 0" "f \<noteq> B_DIRTY"
  shows "f AND B_RECENT \<noteq> 0" "f - B_RECENT \<le> 3"
        "(f - B_RECENT) AND B_DIRTY = f AND B_DIRTY" "f - B_RECENT \<le> f"
  using flag_cases[OF assms(1)] assms(2,3)
  by (auto simp: B_ALL_def B_DIRTY_def B_RECENT_def)

lemma cacheEntryFlush_evicts:
  assumes "idle (cache s ! c)" "c < length (cache s)" "clock_cache s = c"
  shows "\<exists>s'. cacheEntryFlush s c True = Inr s' \<and> evicted_one s s'"
proof -
  have e: "(cache s ! c)\<lparr>entry_lock := True, has_writer := False, sec := - 1, flag := B_RECENT\<rparr>
           = (cache s ! c)\<lparr>entry_lock := True, sec := - 1, flag := B_RECENT\<rparr>"
    using assms(1) by (intro cache_e.equality) (simp_all add: idle_def)
  show ?thesis
    unfolding cacheEntryFlush_idle[OF assms(1)] e
    using assms(2,3) by (simp add: evicted_one_def)
qed

lemma demoted_clock_step: "demoted s (cacheClockStep s)"
  by (simp add: demoted_def cacheClockStep_def)

lemma demoted_update:
  assumes "c < length (cache s)" "f AND B_DIRTY = flag (cache s ! c) AND B_DIRTY"
    and "f \<le> flag (cache s ! c)"
  shows "demoted s (s\<lparr>cache := (cache s)[c := (cache s ! c)\<lparr>flag := f\<rparr>], clock_cache := k\<rparr>)"
  using assms by (auto simp: demoted_def nth_list_update)

lemma set_update_all:
  "\<forall>e \<in> set xs. P e \<Longrightarrow> P x \<Longrightarrow> \<forall>e \<in> set (xs[c := x]). P e"
  using set_update_subset_insert[of xs c x] by blast

lemma clock_step_next: "clock_cache (cacheClockStep s) = hand_next (length (cache s)) (clock_cache s)"
  by (simp add: cacheClockStep_def hand_next_def)

lemma hand_next_neq: "2 \<le> n \<Longrightarrow> k < n \<Longrightarrow> hand_next n k \<noteq> k"
  by (auto simp: hand_next_def)

lemma hand_next_inj: "c < n \<Longrightarrow> k < n \<Longrightarrow> hand_next n c = hand_next n k \<Longrightarrow> c = k"
  by (auto simp: hand_next_def split: if_splits)

lemma recent_not_evictable:
  fixes f :: "32 word"
  assumes "f \<le> 3" "f AND B_RECENT \<noteq> 0"
  shows "f AND B_ALL \<noteq> 0" "f \<noteq> B_DIRTY"
  using flag_cases[OF assms(1)] assms(2)
  by (auto simp: B_ALL_def B_DIRTY_def B_RECENT_def)

lemma old_evictable:
  fixes f :: "32 word"
  assumes "f \<le> 3" "f AND B_RECENT = 0"
  shows "f AND B_ALL = 0 \<or> f = B_DIRTY"
  using flag_cases[OF assms(1)] assms(2)
  by (auto simp: B_ALL_def B_DIRTY_def B_RECENT_def)

text \<open>The guarded entry is not the one the loop breaks on.\<close>

lemma held_guard_not_victim:
  assumes g: "held_guard k laps s" and c: "clock_cache s < length (cache s)"
    and f3: "flag (cache s ! k) \<le> 3"
    and br: "flag (cache s ! hand_next (length (cache s)) (clock_cache s)) AND B_ALL = 0
             \<or> (laps \<ge> 1 \<and> flag (cache s ! hand_next (length (cache s)) (clock_cache s)) = B_DIRTY)"
  shows "hand_next (length (cache s)) (clock_cache s) \<noteq> k"
proof
  assume e: "hand_next (length (cache s)) (clock_cache s) = k"
  show False
  proof (cases "laps \<le> 1")
    case True
    with g have "flag (cache s ! k) AND B_RECENT \<noteq> 0" by (simp add: held_guard_def)
    from recent_not_evictable[OF f3 this] br e show False by auto
  next
    case False
    with g have "clock_cache s = k" "2 \<le> length (cache s)" "k < length (cache s)"
      by (simp_all add: held_guard_def)
    with hand_next_neq[of "length (cache s)" k] e show False by simp
  qed
qed


text \<open>A pass that does not break keeps the guard.\<close>

lemma held_guard_step:
  assumes g: "held_guard k laps s" and c: "clock_cache s < length (cache s)"
    and len: "length (cache s2) = length (cache s)"
    and cl: "clock_cache s2 = hand_next (length (cache s)) (clock_cache s)"
    and other: "\<forall>j < length (cache s). j \<noteq> clock_cache s2 \<longrightarrow> flag (cache s2 ! j) = flag (cache s ! j)"
    and first: "laps = 0 \<Longrightarrow> flag (cache s2 ! clock_cache s2) = flag (cache s ! clock_cache s2)"
    and later: "laps \<ge> 1 \<Longrightarrow> flag (cache s2 ! clock_cache s2) AND B_RECENT = 0"
    and nb: "laps \<ge> 2 \<Longrightarrow> flag (cache s ! clock_cache s2) AND B_RECENT \<noteq> 0"
  shows "held_guard k (if k = clock_cache s2 then laps + 1 else laps) s2"
proof -
  let ?N = "length (cache s)"
  let ?c = "clock_cache s2"
  have n2: "2 \<le> ?N" and k: "k < ?N" using g by (simp_all add: held_guard_def)
  have nk: "hand_next ?N k \<noteq> k" using hand_next_neq[OF n2 k] .
  have nkl: "hand_next ?N k < ?N" using k n2 by (auto simp: hand_next_def)
  consider (a) "laps = 0" | (b) "laps = 1" "clock_cache s = k" | (c) "laps = 1" "clock_cache s \<noteq> k"
    | (d) "laps \<ge> 2" by arith
  then show ?thesis
  proof cases
    case a
    with g have rk: "flag (cache s ! k) AND B_RECENT \<noteq> 0" by (simp add: held_guard_def)
    have "flag (cache s2 ! k) = flag (cache s ! k)"
      using other k first[OF a] by (cases "k = ?c") auto
    with rk a n2 k len show ?thesis by (auto simp: held_guard_def)
  next
    case b
    then have ck: "?c = hand_next ?N k" using cl by simp
    then have ne: "k \<noteq> ?c" using nk by simp
    from g b have rk: "flag (cache s ! k) AND B_RECENT \<noteq> 0" by (simp add: held_guard_def)
    have "flag (cache s2 ! k) = flag (cache s ! k)" using other k ne by simp
    moreover have "flag (cache s2 ! hand_next ?N k) AND B_RECENT = 0"
      using later b(1) ck by simp
    ultimately show ?thesis using rk b ne n2 k len by (auto simp: held_guard_def)
  next
    case c
    from g c have rk: "flag (cache s ! k) AND B_RECENT \<noteq> 0"
      and rn: "flag (cache s ! hand_next ?N k) AND B_RECENT = 0"
      by (simp_all add: held_guard_def)
    have cn: "?c \<noteq> hand_next ?N k"
      using hand_next_inj[OF \<open>clock_cache s < ?N\<close> k] c(2) cl by auto
    then have n': "flag (cache s2 ! hand_next ?N k) = flag (cache s ! hand_next ?N k)"
      using other nkl by simp
    show ?thesis
    proof (cases "k = ?c")
      case True
      then show ?thesis using c(1) rn n' n2 k len by (auto simp: held_guard_def)
    next
      case False
      then have "flag (cache s2 ! k) = flag (cache s ! k)" using other k by simp
      then show ?thesis using False c(1) rk rn n' n2 k len by (auto simp: held_guard_def)
    qed
  next
    case d
    with g have "clock_cache s = k" "flag (cache s ! hand_next ?N k) AND B_RECENT = 0"
      by (simp_all add: held_guard_def)
    with nb[OF d] cl show ?thesis by simp
  qed
qed


lemma demoted_idle:
  assumes "demoted s s2" "j < length (cache s)"
  shows "idle (cache s2 ! j) = idle (cache s ! j)"
proof -
  from assms have "cache s2 ! j = (cache s ! j)\<lparr>flag := flag (cache s2 ! j)\<rparr>"
    by (simp add: demoted_def)
  then have "idle (cache s2 ! j) = idle ((cache s ! j)\<lparr>flag := flag (cache s2 ! j)\<rparr>)" by simp
  then show ?thesis by (simp add: idle_def)
qed

lemma cacheEvict_loop_guarded:
  assumes "0 < length (cache s)" "clock_cache s < length (cache s)" "k < length (cache s)"
    and "\<forall>e \<in> set (cache s). flag e \<le> 3"
    and "\<forall>j < length (cache s). j \<noteq> k \<longrightarrow> idle (cache s ! j)"
    and "idle (cache s ! k) \<or> held_guard k laps s"
    and "(if laps = 0
          then hand_dist (length (cache s)) k (clock_cache s) + recent_count (cache s) + 1
          else recent_count (cache s) + 1) \<le> fuel"
  shows "\<exists>s'. cacheEvict_loop fuel k laps s = Inr s' \<and> evicted_one s s'
              \<and> idle (cache s ! clock_cache s')"
  using assms
proof (induction fuel arbitrary: s laps)
  case 0
  then show ?case by (simp split: if_splits)
next
  case (Suc n)
  let ?N = "length (cache s)"
  let ?s1 = "cacheClockStep s"
  let ?c = "clock_cache ?s1"
  let ?f = "flag (cache s ! ?c)"
  have c: "?c < ?N" using Suc.prems(1,2) by (rule clock_step_lt)
  have cs1: "cache ?s1 = cache s" by (simp add: cacheClockStep_def)
  have f3: "?f \<le> 3" using Suc.prems(4) c by simp
  have fk: "flag (cache s ! k) \<le> 3" using Suc.prems(3,4) by simp
  show ?case
  proof (cases "?f AND B_ALL = 0 \<or> (laps \<ge> 1 \<and> ?f = B_DIRTY)")
    case True
    then have b: "cacheEvict_body k laps s = Break (cacheEntryFlush ?s1 ?c True)"
      by (auto simp: cacheEvict_body_def Let_def cs1)
    have idc: "idle (cache s ! ?c)"
    proof (cases "?c = k")
      case False
      then show ?thesis using Suc.prems(5) c by simp
    next
      case ck: True
      show ?thesis
      proof (rule disjE[OF Suc.prems(6)])
        assume "idle (cache s ! k)" then show ?thesis using ck by simp
      next
        assume g: "held_guard k laps s"
        from held_guard_not_victim[OF g Suc.prems(2) fk] True ck
        show ?thesis by (simp add: clock_step_next)
      qed
    qed
    then have "idle (cache ?s1 ! ?c)" by (simp add: cs1)
    then obtain s' where s': "cacheEntryFlush ?s1 ?c True = Inr s'" "evicted_one ?s1 s'"
      using cacheEntryFlush_evicts[of ?s1 ?c] c cs1 by auto
    have ev: "evicted_one s s'" using demoted_evicted[OF demoted_clock_step s'(2)] .
    have "clock_cache s' = ?c"
      using s'(1) \<open>idle (cache ?s1 ! ?c)\<close> by (auto simp: cacheEntryFlush_idle)
    then show ?thesis using b s'(1) ev idc by simp
  next
    case False
    then have nz: "?f AND B_ALL \<noteq> 0" and nd: "laps \<ge> 1 \<Longrightarrow> ?f \<noteq> B_DIRTY" by auto
    let ?s2 = "(if laps \<ge> 1 \<and> ?f AND B_RECENT \<noteq> 0
                then ?s1\<lparr>cache := (cache ?s1)[?c := (cache ?s1 ! ?c)\<lparr>flag := ?f - B_RECENT\<rparr>]\<rparr>
                else ?s1)"
    let ?t = "(if k = ?c then laps + 1 else laps)"
    have b: "cacheEvict_body k laps s = Continue ?t ?s2"
      using False by (auto simp: cacheEvict_body_def Let_def cs1)
    have len: "length (cache ?s2) = ?N" by (simp add: cs1)
    have cl: "clock_cache ?s2 = ?c" by simp
    have rec: "?f AND B_RECENT \<noteq> 0" if "laps \<ge> 1"
      using demote_flag(1)[OF f3 nz nd[OF that]] .
    have s2e: "?s2 = s\<lparr>cache := (cache s)[?c := (cache s ! ?c)\<lparr>flag := ?f - B_RECENT\<rparr>],
                          clock_cache := ?c\<rparr>" if "laps \<ge> 1"
      using rec[OF that] that by (simp add: cacheClockStep_def)
    have s20: "?s2 = ?s1" if "laps = 0" using that by simp
    have dem: "demoted s ?s2"
    proof (cases "laps \<ge> 1")
      case True
      from demote_flag(3,4)[OF f3 nz nd[OF True]]
      have "demoted s (s\<lparr>cache := (cache s)[?c := (cache s ! ?c)\<lparr>flag := ?f - B_RECENT\<rparr>],
                          clock_cache := ?c\<rparr>)"
        using c by (intro demoted_update) simp_all
      then show ?thesis unfolding s2e[OF True] .
    next
      case False
      then have "laps = 0" by simp
      then show ?thesis unfolding s20[OF \<open>laps = 0\<close>] using demoted_clock_step by simp
    qed
    have fl2: "\<forall>e \<in> set (cache ?s2). flag e \<le> 3"
    proof (cases "laps \<ge> 1")
      case True
      from demote_flag(2)[OF f3 nz nd[OF True]]
      have "flag ((cache s ! ?c)\<lparr>flag := ?f - B_RECENT\<rparr>) \<le> 3" by simp
      from set_update_all[of "cache s" "\<lambda>e. flag e \<le> 3", OF Suc.prems(4) this]
      show ?thesis unfolding s2e[OF True] by simp
    next
      case False
      then have "laps = 0" by simp
      then show ?thesis unfolding s20[OF \<open>laps = 0\<close>] using Suc.prems(4) by (simp add: cs1)
    qed
    have id2: "\<forall>j < length (cache ?s2). j \<noteq> k \<longrightarrow> idle (cache ?s2 ! j)"
      using Suc.prems(5) demoted_idle[OF dem] unfolding len by blast
    have other: "\<forall>j < ?N. j \<noteq> clock_cache ?s2 \<longrightarrow> flag (cache ?s2 ! j) = flag (cache s ! j)"
      by (auto simp: cs1)
    have first: "flag (cache ?s2 ! clock_cache ?s2) = flag (cache s ! clock_cache ?s2)" if "laps = 0"
      using that by (simp add: cs1)
    have later: "flag (cache ?s2 ! clock_cache ?s2) AND B_RECENT = 0" if "laps \<ge> 1"
      using that rec[OF that] c by (simp add: cs1 sub_recent_old)
    have nb: "flag (cache s ! clock_cache ?s2) AND B_RECENT \<noteq> 0" if "laps \<ge> 2"
      using rec that by simp
    have hk2: "idle (cache ?s2 ! k) \<or> held_guard k ?t ?s2"
    proof (rule disjE[OF Suc.prems(6)])
      assume "idle (cache s ! k)"
      then show ?thesis using demoted_idle[OF dem Suc.prems(3)] by simp
    next
      assume g: "held_guard k laps s"
      have "held_guard k (if k = clock_cache ?s2 then laps + 1 else laps) ?s2"
        apply (rule held_guard_step[OF g Suc.prems(2) len _ other])
        subgoal by (simp add: clock_step_next)
        subgoal using first by simp
        subgoal using later by simp
        subgoal using nb by simp
        done
      then have "held_guard k ?t ?s2" by (simp only: cl)
      then show ?thesis by (rule disjI2)
    qed
    have bound: "(if ?t = 0
          then hand_dist ?N k ?c + recent_count (cache ?s2) + 1
          else recent_count (cache ?s2) + 1) \<le> n"
    proof (cases "laps = 0")
      case True
      have hd: "?c = k \<or> hand_dist ?N k ?c + 1 = hand_dist ?N k (clock_cache s)"
        using hand_dist_step[OF Suc.prems(2,3)] by (simp add: cacheClockStep_def)
      have pos: "0 < hand_dist ?N k (clock_cache s)"
        using hand_dist_pos[OF Suc.prems(2,3)] .
      from Suc.prems(7) True
      have "hand_dist ?N k (clock_cache s) + recent_count (cache s) + 1 \<le> Suc n" by simp
      then show ?thesis using hd pos True by (auto simp: cs1)
    next
      case False
      then have t1: "laps \<ge> 1" by simp
      have "recent_count (cache ?s2) + 1 = recent_count (cache s)"
        using recent_count_demote[OF c rec[OF t1]] t1 rec[OF t1] by (simp add: cs1)
      moreover have "recent_count (cache s) + 1 \<le> Suc n" using Suc.prems(7) False by simp
      ultimately show ?thesis using False by auto
    qed
    have "\<exists>s'. cacheEvict_loop n k ?t ?s2 = Inr s' \<and> evicted_one ?s2 s'
               \<and> idle (cache ?s2 ! clock_cache s')"
      apply (rule Suc.IH)
      using Suc.prems(1,3) c fl2 id2 hk2 bound by (simp_all only: len cl)
    then obtain s' where s': "cacheEvict_loop n k ?t ?s2 = Inr s'" "evicted_one ?s2 s'"
        "idle (cache ?s2 ! clock_cache s')"
      by blast
    have ev: "evicted_one s s'" using demoted_evicted[OF dem s'(2)] .
    then have "clock_cache s' < ?N" by (simp add: evicted_one_def)
    then have "idle (cache s ! clock_cache s')" using demoted_idle[OF dem] s'(3) by simp
    then show ?thesis using b s'(1) ev by simp
  qed
qed


lemma cacheEvict_loop_total:
  assumes "0 < length (cache s)" "clock_cache s < length (cache s)" "st < length (cache s)"
    and "\<forall>e \<in> set (cache s). flag e \<le> 3" and "\<forall>e \<in> set (cache s). idle e"
    and "(if laps = 0
          then hand_dist (length (cache s)) st (clock_cache s) + recent_count (cache s) + 1
          else recent_count (cache s) + 1) \<le> fuel"
  shows "\<exists>s'. cacheEvict_loop fuel st laps s = Inr s' \<and> evicted_one s s'"
proof -
  have "\<forall>j < length (cache s). j \<noteq> st \<longrightarrow> idle (cache s ! j)"
    and "idle (cache s ! st) \<or> held_guard st laps s"
    using assms(3,5) by simp_all
  from cacheEvict_loop_guarded[OF assms(1-4) this assms(6)] show ?thesis by blast
qed

lemma cacheEvict_loop_numeral:
  "cacheEvict_loop (numeral k) st t s =
     (case cacheEvict_body st t s of
        Break r \<Rightarrow> r
      | Continue t1 s2 \<Rightarrow> cacheEvict_loop (pred_numeral k) st t1 s2)"
  "cacheEvict_loop 1 st t s =
     (case cacheEvict_body st t s of
        Break r \<Rightarrow> r
      | Continue t1 s2 \<Rightarrow> cacheEvict_loop 0 st t1 s2)"
  by (simp_all add: numeral_eq_Suc)

text \<open>
  C4, as the code has it. From a table of \<open>N \<ge> 1\<close> entries whose flags are among the four
  values of \<^verbatim>\<open>buf_flag_t\<close> and which nobody holds, \<^verbatim>\<open>cacheEvict\<close> returns within
  \<open>2 * N + 1\<close> passes through its loop, that is two full laps of the hand and one more
  step, and has evicted exactly the entry under the hand.
\<close>

theorem cacheEvict_terminates:
  assumes "0 < length (cache s)" and "clock_cache s < length (cache s)"
    and "\<forall>e \<in> set (cache s). flag e \<le> 3" and "\<forall>e \<in> set (cache s). idle e"
    and "2 * length (cache s) + 1 \<le> fuel"
  shows "\<exists>s'. cacheEvict fuel s = Inr s' \<and> evicted_one s s'"
proof -
  have "hand_dist (length (cache s)) (clock_cache s) (clock_cache s) \<le> length (cache s)"
    using assms(2) by (simp add: hand_dist_le)
  moreover have "recent_count (cache s) \<le> length (cache s)" by (rule recent_count_le)
  ultimately have "hand_dist (length (cache s)) (clock_cache s) (clock_cache s)
                   + recent_count (cache s) + 1 \<le> fuel"
    using assms(5) by simp
  then show ?thesis
    unfolding cacheEvict_def
    using assms(1-4) by (intro cacheEvict_loop_total) simp_all
qed

theorem cacheEvict_terminates_witness:
  "0 < length (cache hot_table) \<and> clock_cache hot_table < length (cache hot_table)
   \<and> flag (cache hot_table ! 0) \<le> 3 \<and> flag (cache hot_table ! 1) \<le> 3
   \<and> idle (cache hot_table ! 0) \<and> idle (cache hot_table ! 1)
   \<and> 2 * length (cache hot_table) + 1 \<le> 5
   \<and> cacheEvict 5 hot_table
       = Inr (hot_table\<lparr>cache := [(cache hot_table ! 0)\<lparr>flag := 2\<rparr>,
                (cache hot_table ! 1)\<lparr>entry_lock := True, sec := - 1, flag := 1\<rparr>],
              clock_cache := 1,
              fs_device := block_write (blank_dev 8) 6 (replicate BLOCK_SECTOR_SIZE 9)\<rparr>)"
proof -
  have h: "0 < length (cache hot_table)" "clock_cache hot_table < length (cache hot_table)"
    "\<forall>e \<in> set (cache hot_table). flag e \<le> 3" "\<forall>e \<in> set (cache hot_table). idle e"
    "2 * length (cache hot_table) + 1 \<le> 5"
    by (simp_all add: hot_table_def idle_def)
  have e: "cacheEvict 5 hot_table
       = Inr (hot_table\<lparr>cache := [(cache hot_table ! 0)\<lparr>flag := 2\<rparr>,
                (cache hot_table ! 1)\<lparr>entry_lock := True, sec := - 1, flag := 1\<rparr>],
              clock_cache := 1,
              fs_device := block_write (blank_dev 8) 6 (replicate BLOCK_SECTOR_SIZE 9)\<rparr>)"
    by (simp add: cacheEvict_def cacheEvict_loop_numeral cacheEvict_body_def cacheClockStep_def
        hot_table_def B_ALL_def B_DIRTY_def B_RECENT_def Let_def cacheEntryFlush_def
        cache_write_acquire_def cache_write_release_def)
  have f: "flag (cache hot_table ! 0) \<le> 3" "flag (cache hot_table ! 1) \<le> 3"
    "idle (cache hot_table ! 0)" "idle (cache hot_table ! 1)"
    by (simp_all add: hot_table_def idle_def)
  from cacheEvict_terminates[OF h] h(1,2,5) e f show ?thesis by blast
qed

text \<open>
  C4, as it is stated, fails on the table of two entries that are both recent and dirty:
  after two full laps (four passes through the loop) the evictor is still running; the
  fifth pass evicts.
\<close>

theorem cacheEvict_two_laps_counterexample:
  "length (cache hot_table) = 2
   \<and> flag (cache hot_table ! 0) = B_ALL \<and> flag (cache hot_table ! 1) = B_ALL
   \<and> cacheEvict (2 * 2) hot_table = Inl OutOfFuel"
  by (simp add: cacheEvict_def cacheEvict_loop_numeral cacheEvict_body_def cacheClockStep_def
        hot_table_def B_ALL_def B_DIRTY_def B_RECENT_def Let_def)

text \<open>
  C3, as the code has it. On a pass through the loop that does not evict, the entry under
  the hand has its recent bit cleared when the hand has already been round once
  (\<open>try_count \<ge> 1\<close>) and the bit was set; during the first lap (\<open>try_count = 0\<close>) every
  entry is left as it is.
\<close>

theorem demotion_after_first_lap:
  assumes "cacheEvict_body st laps s = Continue try1 s2"
  shows "clock_cache s2 = clock_cache (cacheClockStep s)
     \<and> (1 \<le> laps \<and> flag (cache s ! clock_cache s2) AND B_RECENT \<noteq> 0 \<longrightarrow>
          cache s2 = (cache s)[clock_cache s2 :=
                        (cache s ! clock_cache s2)\<lparr>flag := flag (cache s ! clock_cache s2) - B_RECENT\<rparr>]
          \<and> (flag (cache s ! clock_cache s2) - B_RECENT) AND B_RECENT = 0)
     \<and> (laps = 0 \<longrightarrow> cache s2 = cache s)"
  using assms
  by (auto simp: cacheEvict_body_def Let_def cacheClockStep_def sub_recent_old split: if_splits)

theorem demotion_after_first_lap_witness:
  "cacheEvict_body 0 1 two_entries
     = Continue 1 (two_entries\<lparr>cache := (cache two_entries)
                      [1 := (cache two_entries ! 1)\<lparr>flag := 3 - B_RECENT\<rparr>],
                    clock_cache := 1\<rparr>)
   \<and> flag (cache two_entries ! 1) AND B_RECENT \<noteq> 0
   \<and> cache (two_entries\<lparr>cache := (cache two_entries)
                      [1 := (cache two_entries ! 1)\<lparr>flag := 3 - B_RECENT\<rparr>],
                    clock_cache := 1\<rparr>)
       = (cache two_entries)[1 := (cache two_entries ! 1)\<lparr>flag := 3 - B_RECENT\<rparr>]"
proof -
  let ?s2 = "two_entries\<lparr>cache := (cache two_entries)
                      [1 := (cache two_entries ! 1)\<lparr>flag := 3 - B_RECENT\<rparr>],
                    clock_cache := 1\<rparr>"
  have b: "cacheEvict_body 0 1 two_entries = Continue 1 ?s2"
    by (simp add: cacheEvict_body_def Let_def cacheClockStep_def two_entries_def
          B_ALL_def B_RECENT_def B_DIRTY_def)
  have r: "flag (cache two_entries ! 1) AND B_RECENT \<noteq> 0"
    by (simp add: two_entries_def B_RECENT_def)
  from demotion_after_first_lap[OF b] b r show ?thesis by simp
qed

text \<open>
  C3, as it is stated, fails in the first lap: the hand passes the recent entry 1 of
  \<open>two_entries\<close> without evicting it and leaves its recent bit set.
\<close>

theorem first_lap_keeps_recent_counterexample:
  "cacheEvict_body 0 0 two_entries = Continue 0 (two_entries\<lparr>clock_cache := 1\<rparr>)
   \<and> flag (cache two_entries ! 1) AND B_RECENT \<noteq> 0
   \<and> flag (cache (two_entries\<lparr>clock_cache := 1\<rparr>) ! 1) AND B_RECENT \<noteq> 0"
  by (simp add: cacheEvict_body_def Let_def cacheClockStep_def two_entries_def
        B_ALL_def B_RECENT_def)

section \<open>Two threads missing on one sector\<close>

lemmas race_evals = cacheTryGetIdx_miss_def cacheEvict_def cacheEvict_loop_numeral cacheEvict_body_def cacheClockStep_def
   cacheEntryFlush_def cache_write_acquire_def cache_write_release_def cache_read_acquire_def admit_def
   cacheLoadThread_def block_read_def block_size_def block_write_def
   B_ALL_def B_DIRTY_def B_RECENT_def B_NOFLAG_def Let_def


lemma boot2: "cache_init (boot 2 k) =
   \<lparr>cache = [init_entry zero_entry, init_entry zero_entry], clock_cache = 0,
    eviction_lock = False, fs_device = blank_dev k\<rparr>"
  by (simp add: cache_init_def boot_def numeral_2_eq_2)

lemma race_lookup: "cacheGetIdx (cache_init (boot 2 8)) 7 W_READ = Inr (cache_init (boot 2 8), None)"
  by (simp add: boot2 cacheGetIdx_def cacheGetIdx_scan.simps init_entry_def zero_entry_def)

lemma race_load1: "cacheTryGetIdx_miss 5 (cache_init (boot 2 8)) 7 W_READ = Inr (race_mid, 1)"
  by (simp add: boot2 race_evals race_mid_def init_entry_def zero_entry_def blank_dev_def)

lemma race_load2: "cacheTryGetIdx_miss 5 race_mid 7 W_READ = Inr (race_end, 0)"
  by (simp add: boot2 race_evals race_mid_def race_end_def init_entry_def zero_entry_def blank_dev_def)


text \<open>
  C5. The code does not keep sectors unique. Two threads read sector 7 from a fresh cache
  of two entries; both look it up and miss before either takes the eviction lock; then
  each in turn takes the lock, evicts an entry and installs sector 7. Entries 0 and 1
  both hold sector 7.
\<close>

theorem sector_duplication_race:
  "conc_reach 5 (cache_init (boot 2 8), [Looking 7 W_READ, Looking 7 W_READ])
                (race_end, [Holding 1, Holding 0])
   \<and> map sec (cache race_end) = [7, 7]
   \<and> \<not> sectors_unique race_end"
proof -
  let ?s0 = "cache_init (boot 2 8)"
  let ?L = "Looking 7 W_READ" and ?M = "Missed 7 W_READ"
  have r0: "conc_reach 5 (?s0, [?L, ?L]) (?s0, [?L, ?L])" by (rule reach_refl)
  have "conc_step 5 (?s0, [?L, ?L]) (?s0, [?L, ?L][0 := ?M])"
    by (rule lookup_miss[where sc = 7 and w = W_READ]) (simp_all add: race_lookup)
  then have r1: "conc_reach 5 (?s0, [?L, ?L]) (?s0, [?M, ?L])"
    using reach_step[OF r0] by simp
  have "conc_step 5 (?s0, [?M, ?L]) (?s0, [?M, ?L][1 := ?M])"
    by (rule lookup_miss[where sc = 7 and w = W_READ]) (simp_all add: race_lookup)
  then have r2: "conc_reach 5 (?s0, [?L, ?L]) (?s0, [?M, ?M])"
    using reach_step[OF r1] by simp
  have "conc_step 5 (?s0, [?M, ?M]) (race_mid, [?M, ?M][0 := Holding 1])"
    by (rule evict_load[where sc = 7 and w = W_READ]) (simp_all add: race_load1)
  then have r3: "conc_reach 5 (?s0, [?L, ?L]) (race_mid, [Holding 1, ?M])"
    using reach_step[OF r2] by simp
  have "conc_step 5 (race_mid, [Holding 1, ?M]) (race_end, [Holding 1, ?M][1 := Holding 0])"
    by (rule evict_load[where sc = 7 and w = W_READ]) (simp_all add: race_load2)
  then have r4: "conc_reach 5 (?s0, [?L, ?L]) (race_end, [Holding 1, Holding 0])"
    using reach_step[OF r3] by simp
  have "map sec (cache race_end) = [7, 7]" by (simp add: race_end_def)
  then show ?thesis using r4 by (simp add: sectors_unique_def)
qed

section \<open>A write followed by a flush\<close>

lemma flush_entries_length: "length (fst (cache_flush_entries cs d)) = length cs"
  by (induction cs arbitrary: d) (simp_all add: case_prod_beta)

lemma flush_entries_sec: "map sec (fst (cache_flush_entries cs d)) = map sec cs"
  by (induction cs arbitrary: d) (simp_all add: case_prod_beta)

lemma flush_contents_other:
  "\<forall>c \<in> set cs. \<not> (flag c AND B_DIRTY \<noteq> 0 \<and> sec c = S)
   \<Longrightarrow> contents (snd (cache_flush_entries cs d)) S = contents d S"
proof (induction cs arbitrary: d)
  case Nil
  then show ?case by simp
next
  case (Cons c cs)
  then show ?case
    by (auto simp: case_prod_beta block_write_def)
qed

lemma flush_contents_at:
  assumes "k < length cs" "sec (cs ! k) = S" "flag (cs ! k) AND B_DIRTY \<noteq> 0"
    and "\<forall>j. k < j \<and> j < length cs \<longrightarrow> \<not> (flag (cs ! j) AND B_DIRTY \<noteq> 0 \<and> sec (cs ! j) = S)"
  shows "contents (snd (cache_flush_entries cs d)) S = data (cs ! k)"
  using assms
proof (induction cs arbitrary: d k)
  case Nil
  then show ?case by simp
next
  case (Cons c cs)
  show ?case
  proof (cases k)
    case 0
    have "\<forall>x \<in> set cs. \<not> (flag x AND B_DIRTY \<noteq> 0 \<and> sec x = S)"
    proof
      fix x assume "x \<in> set cs"
      then obtain j where j: "j < length cs" "cs ! j = x" by (auto simp: in_set_conv_nth)
      with Cons.prems(4)[rule_format, of "Suc j"] 0
      show "\<not> (flag x AND B_DIRTY \<noteq> 0 \<and> sec x = S)" by auto
    qed
    from flush_contents_other[OF this, of "block_write d (sec c) (data c)"]
    show ?thesis using Cons.prems(2,3) 0
      by (simp add: case_prod_beta block_write_def)
  next
    case (Suc k')
    have p: "k' < length cs" "sec (cs ! k') = S" "flag (cs ! k') AND B_DIRTY \<noteq> 0"
      using Cons.prems(1-3) Suc by simp_all
    have q: "\<forall>j. k' < j \<and> j < length cs \<longrightarrow> \<not> (flag (cs ! j) AND B_DIRTY \<noteq> 0 \<and> sec (cs ! j) = S)"
    proof (intro allI impI)
      fix j assume "k' < j \<and> j < length cs"
      with Cons.prems(4)[rule_format, of "Suc j"] Suc
      show "\<not> (flag (cs ! j) AND B_DIRTY \<noteq> 0 \<and> sec (cs ! j) = S)" by auto
    qed
    from Cons.IH[OF p q] show ?thesis using Suc
      by (simp add: case_prod_beta)
  qed
qed


lemma memcpy_whole: "length src = n \<Longrightarrow> length dst \<le> n \<Longrightarrow> memcpy dst src n = src"
  by (simp add: memcpy_def)

lemma flush_after_write:
  assumes "k < length (cache s1)" "sec (cache s1 ! k) = S" "flag (cache s1 ! k) AND B_DIRTY \<noteq> 0"
    and "\<forall>j < length (cache s1). j \<noteq> k \<and> sec (cache s1 ! j) = S
            \<and> flag (cache s1 ! j) AND B_DIRTY \<noteq> 0 \<longrightarrow> j < k"
  shows "contents (fs_device (cache_flush s1)) S = data (cache s1 ! k)"
    and "sec (cache (cache_flush s1) ! k) = S"
    and "\<forall>c \<in> set (cache (cache_flush s1)). flag c AND B_DIRTY = 0"
proof -
  have q: "\<forall>j. k < j \<and> j < length (cache s1)
             \<longrightarrow> \<not> (flag (cache s1 ! j) AND B_DIRTY \<noteq> 0 \<and> sec (cache s1 ! j) = S)"
    using assms(4) by auto
  show "contents (fs_device (cache_flush s1)) S = data (cache s1 ! k)"
    using flush_contents_at[OF assms(1-3) q, of "fs_device s1"]
    by (simp add: cache_flush_def case_prod_beta)
  have "map sec (cache (cache_flush s1)) ! k = map sec (cache s1) ! k"
    by (simp add: cache_flush_def case_prod_beta flush_entries_sec)
  then show "sec (cache (cache_flush s1) ! k) = S"
    using assms(1,2) by (simp add: cache_flush_def case_prod_beta flush_entries_length)
  show "\<forall>c \<in> set (cache (cache_flush s1)). flag c AND B_DIRTY = 0"
    using cache_flush_entries_clean[of "cache s1" "fs_device s1"]
    by (cases "cache_flush_entries (cache s1) (fs_device s1)") (simp add: cache_flush_def)
qed

lemma cache_write_hit_post:
  assumes sc: "cacheGetIdx_scan (cache s) 0 S = Some k"
    and id: "idle (cache s ! k)" and ld: "length (data (cache s ! k)) \<le> BLOCK_SECTOR_SIZE"
    and lp: "length P = BLOCK_SECTOR_SIZE"
    and dup: "\<forall>i j. i < j \<and> j < length (cache s) \<and> sec (cache s ! i) = S \<and> sec (cache s ! j) = S
                \<longrightarrow> flag (cache s ! j) AND B_DIRTY = 0"
  shows "\<exists>s1 k. cache_write fuel s S P = Inr s1 \<and> k < length (cache s1)
            \<and> length (cache s1) = length (cache s)
            \<and> sec (cache s1 ! k) = S \<and> data (cache s1 ! k) = P
            \<and> flag (cache s1 ! k) AND B_DIRTY \<noteq> 0
            \<and> (\<forall>j < length (cache s1). j \<noteq> k \<and> sec (cache s1 ! j) = S
                   \<and> flag (cache s1 ! j) AND B_DIRTY \<noteq> 0 \<longrightarrow> j < k)"
proof -
  let ?s1 = "s\<lparr>cache := (cache s)[k := (cache s ! k)
                    \<lparr>flag := (flag (cache s ! k) OR B_ALL) OR B_RECENT,
                     data := memcpy (data (cache s ! k)) P BLOCK_SECTOR_SIZE\<rparr>]\<rparr>"
  have k: "k < length (cache s)" "sec (cache s ! k) = S"
    and first: "\<forall>j. 0 \<le> j \<and> j < k \<longrightarrow> sec (cache s ! j) \<noteq> S"
    using scan_Some[OF sc] by simp_all
  have h: "\<not> entry_lock (cache s ! k)" "\<not> has_writer (cache s ! k)"
    "\<not> 0 < sint (reader_count (cache s ! k))"
    using id by (simp_all add: idle_def)
  have w: "cache_write fuel s S P = Inr ?s1" by (rule cache_write_hit[OF sc h])
  have m: "memcpy (data (cache s ! k)) P BLOCK_SECTOR_SIZE = P"
    using memcpy_whole[OF lp ld] .
  have others: "j < k" if j: "j < length (cache s)" "j \<noteq> k" "sec (cache s ! j) = S"
      "flag (cache s ! j) AND B_DIRTY \<noteq> 0" for j
  proof (rule ccontr)
    assume "\<not> j < k"
    then have "k < j" using j(2) by simp
    with dup[rule_format, of k j] j k show False by simp
  qed
  show ?thesis
    apply (rule exI[of _ ?s1], rule exI[of _ k])
    using w k m or_dirty others by (auto simp: nth_list_update)
qed


lemma flag_upd_fields:
  assumes "c' = c\<lparr>flag := f\<rparr>"
  shows "sec c' = sec c" "data c' = data c" "entry_lock c' = entry_lock c"
    "has_writer c' = has_writer c" "reader_count c' = reader_count c" "idle c' = idle c"
  using assms by (simp_all add: idle_def)

lemma cacheGetIdx_none:
  "cacheGetIdx_scan (cache s) 0 sc = None \<Longrightarrow> cacheGetIdx s sc w = Inr (s, None)"
  by (simp add: cacheGetIdx_def)

lemma cacheGetIdx_no_hit:
  assumes "cacheGetIdx_scan (cache s) 0 sc = Some j" "\<not> entry_lock (cache s ! j)"
  shows "cacheGetIdx s sc W_NO
           = Inr (s\<lparr>cache := (cache s)[j := (cache s ! j)
                      \<lparr>entry_lock := True, flag := flag (cache s ! j) OR B_RECENT\<rparr>]\<rparr>, Some j)"
proof -
  have "admit W_NO ((cache s ! j)\<lparr>entry_lock := True\<rparr>) = Inr ((cache s ! j)\<lparr>entry_lock := True\<rparr>)"
    by (simp add: admit_def)
  from cacheGetIdx_hit[OF assms this] show ?thesis by simp
qed

lemma cacheLoadThread_total:
  assumes n2: "2 \<le> length (cache s)" and k: "k < length (cache s)" and cl: "clock_cache s = k"
    and el: "\<not> eviction_lock s" and fl: "\<forall>e \<in> set (cache s). flag e \<le> 3"
    and oth: "\<forall>j < length (cache s). j \<noteq> k \<longrightarrow> idle (cache s ! j)"
    and rk: "flag (cache s ! k) AND B_RECENT \<noteq> 0" and hk: "\<not> idle (cache s ! k)"
    and ne: "sec (cache s ! k) \<noteq> sc"
    and fuel: "2 * length (cache s) + 1 \<le> fuel"
  shows "\<exists>s2. cacheLoadThread fuel s sc 0 = Inr (s2, 1) \<and> length (cache s2) = length (cache s)
           \<and> cache s2 ! k = (cache s ! k)\<lparr>flag := flag (cache s2 ! k)\<rparr>
           \<and> flag (cache s2 ! k) AND B_DIRTY = flag (cache s ! k) AND B_DIRTY
           \<and> (\<forall>j < length (cache s). j \<noteq> k \<longrightarrow>
                 sec (cache s2 ! j) = sec (cache s ! j) \<or> sec (cache s2 ! j) = sc)"
proof (cases "sc \<ge> block_size (fs_device s)")
  case True
  then have "cacheLoadThread fuel s sc 0 = Inr (s, 1)" by (simp add: cacheLoadThread_def)
  then show ?thesis by simp
next
  case far: False
  show ?thesis
  proof (cases "cacheGetIdx_scan (cache s) 0 sc")
    case (Some j)
    have j: "j < length (cache s)" "sec (cache s ! j) = sc" using scan_Some[OF Some] by simp_all
    then have jk: "j \<noteq> k" using ne by auto
    then have "idle (cache s ! j)" using oth j by simp
    then have nl: "\<not> entry_lock (cache s ! j)" by (simp add: idle_def)
    let ?s2 = "s\<lparr>cache := (cache s)[j := (cache s ! j)
                      \<lparr>entry_lock := False, flag := flag (cache s ! j) OR B_RECENT\<rparr>]\<rparr>"
    have "cacheLoadThread fuel s sc 0 = Inr (?s2, 1)"
      using far j(1) by (simp add: cacheLoadThread_def cacheGetIdx_no_hit[OF Some nl])
    moreover have "cache ?s2 ! k = cache s ! k" using jk by simp
    moreover have "\<forall>i < length (cache s). i \<noteq> k \<longrightarrow> sec (cache ?s2 ! i) = sec (cache s ! i)"
      using j(1) by (auto simp: nth_list_update)
    ultimately show ?thesis by simp
  next
    case None
    let ?s' = "s\<lparr>eviction_lock := True\<rparr>"
    let ?N = "length (cache s)"
    have g: "idle (cache ?s' ! k) \<or> held_guard k 0 ?s'"
      using n2 k rk by (simp add: held_guard_def)
    have b: "(if (0::nat) = 0
          then hand_dist (length (cache ?s')) k (clock_cache ?s') + recent_count (cache ?s') + 1
          else recent_count (cache ?s') + 1) \<le> fuel"
      using hand_dist_le[OF k k] recent_count_le[of "cache s"] fuel cl by simp
    have "\<exists>sC. cacheEvict_loop fuel k 0 ?s' = Inr sC \<and> evicted_one ?s' sC
              \<and> idle (cache ?s' ! clock_cache sC)"
      apply (rule cacheEvict_loop_guarded[OF _ _ _ _ _ g b])
      using n2 k cl fl oth by auto
    then obtain sC where sC: "cacheEvict_loop fuel k 0 ?s' = Inr sC" "evicted_one ?s' sC"
      "idle (cache s ! clock_cache sC)" by auto
    let ?v = "clock_cache sC"
    have vk: "?v \<noteq> k" using sC(3) hk by auto
    have lC: "length (cache sC) = ?N" and v: "?v < ?N"
      using sC(2) by (simp_all add: evicted_one_def)
    have kC: "cache sC ! k = (cache s ! k)\<lparr>flag := flag (cache sC ! k)\<rparr>"
      "flag (cache sC ! k) AND B_DIRTY = flag (cache s ! k) AND B_DIRTY"
      using sC(2) k vk by (simp_all add: evicted_one_def)
    have oC: "sec (cache sC ! j) = sec (cache s ! j)" if "j < ?N" "j \<noteq> ?v" for j
    proof -
      have "cache sC ! j = (cache s ! j)\<lparr>flag := flag (cache sC ! j)\<rparr>"
        using sC(2) that by (simp add: evicted_one_def)
      then show ?thesis by (rule flag_upd_fields(1))
    qed
    let ?e = "(cache sC ! ?v)\<lparr>sec := sc, data := contents (fs_device sC) sc\<rparr>"
    let ?s2 = "sC\<lparr>cache := (cache sC)[?v := ?e\<lparr>flag := flag ?e OR B_RECENT, entry_lock := False\<rparr>],
                  fs_device := (fs_device sC)\<lparr>io_log := io_log (fs_device sC) @ [DevRead sc]\<rparr>,
                  eviction_lock := False\<rparr>"
    have "cacheLoadThread fuel s sc 0 = Inr (?s2, 1)"
      using far el sC(1) cl
      by (simp add: cacheLoadThread_def cacheGetIdx_none[OF None] cacheEvict_def block_read_def Let_def)
    moreover have "length (cache ?s2) = ?N" using lC by simp
    moreover have "cache ?s2 ! k = cache sC ! k" using vk by simp
    moreover have "sec (cache ?s2 ! j) = sec (cache s ! j) \<or> sec (cache ?s2 ! j) = sc"
      if "j < ?N" for j
      using oC[OF that] that lC by (cases "j = ?v") simp_all
    ultimately show ?thesis using kC by auto
  qed
qed


lemma installed_flag:
  "((B_RECENT OR B_RECENT) OR B_ALL) \<le> (3::32 word)"
  "((B_RECENT OR B_RECENT) OR B_ALL) AND B_RECENT \<noteq> 0"
  "((B_RECENT OR B_RECENT) OR B_ALL) AND B_DIRTY \<noteq> 0"
  by (simp_all add: B_RECENT_def B_ALL_def B_DIRTY_def)

lemma cacheTryGetIdx_miss_write:
  assumes q: "quiescent s" and fuel: "2 * length (cache s) + 1 \<le> fuel"
    and none: "\<forall>j < length (cache s). sec (cache s ! j) \<noteq> S"
  shows "\<exists>s2 k. cacheTryGetIdx_miss fuel s S W_WRITE = Inr (s2, k) \<and> k < length (cache s)
      \<and> length (cache s2) = length (cache s)
      \<and> sec (cache s2 ! k) = S \<and> has_writer (cache s2 ! k)
      \<and> flag (cache s2 ! k) AND B_DIRTY \<noteq> 0
      \<and> data (cache s2 ! k) = contents (fs_device s) S
      \<and> (\<forall>j < length (cache s). j \<noteq> k \<longrightarrow> sec (cache s2 ! j) \<noteq> S)"
proof -
  let ?N = "length (cache s)"
  let ?s' = "s\<lparr>eviction_lock := True\<rparr>"
  have n2: "2 \<le> ?N" and c: "clock_cache s < ?N" and el: "\<not> eviction_lock s"
    and fl: "\<forall>e \<in> set (cache s). flag e \<le> 3" and idl: "\<forall>e \<in> set (cache s). idle e"
    using q by (simp_all add: quiescent_def)
  have b: "(if (0::nat) = 0
        then hand_dist (length (cache ?s')) (clock_cache s) (clock_cache ?s')
             + recent_count (cache ?s') + 1
        else recent_count (cache ?s') + 1) \<le> fuel"
    using hand_dist_le[OF c c] recent_count_le[of "cache s"] fuel by simp
  have "\<exists>sA. cacheEvict_loop fuel (clock_cache s) 0 ?s' = Inr sA \<and> evicted_one ?s' sA"
    apply (rule cacheEvict_loop_total[OF _ _ _ _ _ b])
    using n2 c fl idl by auto
  then obtain sA where sA: "cacheEvict_loop fuel (clock_cache s) 0 ?s' = Inr sA"
    "evicted_one ?s' sA" by auto
  let ?k = "clock_cache sA"
  have k: "?k < ?N" and lA: "length (cache sA) = ?N" and elA: "eviction_lock sA"
    and eA: "cache sA ! ?k = (cache s ! ?k)\<lparr>entry_lock := True, sec := - 1, flag := B_RECENT\<rparr>"
    and dA: "fs_device sA = (if flag (cache s ! ?k) AND B_DIRTY \<noteq> 0
            then block_write (fs_device s) (sec (cache s ! ?k)) (data (cache s ! ?k))
            else fs_device s)"
    using sA(2) by (simp_all add: evicted_one_def)
  have oA: "cache sA ! j = (cache s ! j)\<lparr>flag := flag (cache sA ! j)\<rparr>"
    "flag (cache sA ! j) \<le> flag (cache s ! j)" if "j < ?N" "j \<noteq> ?k" for j
    using sA(2) that by (simp_all add: evicted_one_def)
  have idk: "idle (cache s ! ?k)" using idl k by simp
  have "sec (cache s ! ?k) \<noteq> S" using none k by simp
  then have cS: "contents (fs_device sA) S = contents (fs_device s) S"
    using dA by (auto simp: block_write_def)
  let ?b = "contents (fs_device sA) S"
  let ?dA = "(fs_device sA)\<lparr>io_log := io_log (fs_device sA) @ [DevRead S]\<rparr>"
  let ?e2 = "(cache s ! ?k)\<lparr>entry_lock := False, has_writer := True, sec := S,
                            flag := (B_RECENT OR B_RECENT) OR B_ALL, data := ?b\<rparr>"
  let ?sB = "sA\<lparr>cache := (cache sA)[?k := ?e2], fs_device := ?dA, eviction_lock := False\<rparr>"
  have ad: "admit W_WRITE ((cache sA ! ?k)\<lparr>entry_lock := False, sec := S,
                       flag := B_RECENT OR B_RECENT, data := ?b\<rparr>) = Inr ?e2"
    using idk by (simp add: eA admit_def cache_write_acquire_def idle_def)
  have flB: "\<forall>e \<in> set (cache ?sB). flag e \<le> 3"
  proof
    fix e assume "e \<in> set (cache ?sB)"
    then obtain j where j: "j < ?N" "cache ?sB ! j = e"
      using lA by (auto simp: in_set_conv_nth)
    show "flag e \<le> 3"
    proof (cases "j = ?k")
      case True
      then show ?thesis using j k lA installed_flag(1) by auto
    next
      case False
      have "flag (cache s ! j) \<le> 3" using fl j(1) by simp
      with oA(2)[OF j(1) False] have "flag (cache sA ! j) \<le> 3" by (rule order_trans)
      then show ?thesis using j False by auto
    qed
  qed
  have othB: "\<forall>j < length (cache ?sB). j \<noteq> ?k \<longrightarrow> idle (cache ?sB ! j)"
  proof (intro allI impI)
    fix j assume j: "j < length (cache ?sB)" "j \<noteq> ?k"
    then have jn: "j < ?N" using lA by simp
    have "idle (cache sA ! j) = idle (cache s ! j)"
      using oA(1)[OF jn j(2)] by (rule flag_upd_fields(6))
    then show "idle (cache ?sB ! j)" using idl jn j(2) by simp
  qed
  have "\<exists>s2. cacheLoadThread fuel ?sB (S + 1) 0 = Inr (s2, 1)
           \<and> length (cache s2) = length (cache ?sB)
           \<and> cache s2 ! ?k = (cache ?sB ! ?k)\<lparr>flag := flag (cache s2 ! ?k)\<rparr>
           \<and> flag (cache s2 ! ?k) AND B_DIRTY = flag (cache ?sB ! ?k) AND B_DIRTY
           \<and> (\<forall>j < length (cache ?sB). j \<noteq> ?k \<longrightarrow>
                 sec (cache s2 ! j) = sec (cache ?sB ! j) \<or> sec (cache s2 ! j) = S + 1)"
    apply (rule cacheLoadThread_total[OF _ _ _ _ flB othB])
    using n2 k lA fuel installed_flag by (simp_all add: idle_def)
  then obtain s2 where s2: "cacheLoadThread fuel ?sB (S + 1) 0 = Inr (s2, 1)"
      "length (cache s2) = ?N"
      "cache s2 ! ?k = ?e2\<lparr>flag := flag (cache s2 ! ?k)\<rparr>"
      "flag (cache s2 ! ?k) AND B_DIRTY = flag ?e2 AND B_DIRTY"
      "\<forall>j < ?N. j \<noteq> ?k \<longrightarrow> sec (cache s2 ! j) = sec (cache ?sB ! j) \<or> sec (cache s2 ! j) = S + 1"
    using k lA by auto
  have fA: "flag (cache sA ! ?k) = B_RECENT" by (simp add: eA)
  have r: "cacheTryGetIdx_miss fuel s S W_WRITE = Inr (s2, ?k)"
    using el sA(1) ad s2(1)
    by (simp add: cacheTryGetIdx_miss_def cacheEvict_def block_read_def Let_def fA)
  have f: "sec (cache s2 ! ?k) = S" "has_writer (cache s2 ! ?k)" "data (cache s2 ! ?k) = ?b"
    using flag_upd_fields(1,4,2)[OF s2(3)] by simp_all
  have d: "flag (cache s2 ! ?k) AND B_DIRTY \<noteq> 0"
    using s2(4) installed_flag(3) by simp
  have o: "sec (cache s2 ! j) \<noteq> S" if j: "j < ?N" "j \<noteq> ?k" for j
  proof -
    have "sec (cache sA ! j) = sec (cache s ! j)"
      using oA(1)[OF j] by (rule flag_upd_fields(1))
    then have "sec (cache ?sB ! j) \<noteq> S" using none j by simp
    moreover have "S + 1 \<noteq> S" by simp
    ultimately show ?thesis using s2(5) j by auto
  qed
  show ?thesis
    apply (rule exI[of _ s2], rule exI[of _ ?k])
    using r k s2(2) f d cS o by simp
qed


lemma cache_write_miss_post:
  assumes q: "quiescent s" and fuel: "2 * length (cache s) + 1 \<le> fuel"
    and sc: "cacheGetIdx_scan (cache s) 0 S = None"
    and lp: "length P = BLOCK_SECTOR_SIZE"
    and ls: "length (contents (fs_device s) S) \<le> BLOCK_SECTOR_SIZE"
  shows "\<exists>s1 k. cache_write fuel s S P = Inr s1 \<and> k < length (cache s1)
            \<and> length (cache s1) = length (cache s)
            \<and> sec (cache s1 ! k) = S \<and> data (cache s1 ! k) = P
            \<and> flag (cache s1 ! k) AND B_DIRTY \<noteq> 0
            \<and> (\<forall>j < length (cache s1). j \<noteq> k \<and> sec (cache s1 ! j) = S
                   \<and> flag (cache s1 ! j) AND B_DIRTY \<noteq> 0 \<longrightarrow> j < k)"
proof -
  have none: "\<forall>j < length (cache s). sec (cache s ! j) \<noteq> S"
    using scan_None[OF sc] by simp
  from cacheTryGetIdx_miss_write[OF q fuel none]
  obtain s2 k where m: "cacheTryGetIdx_miss fuel s S W_WRITE = Inr (s2, k)"
    and k: "k < length (cache s)" and l2: "length (cache s2) = length (cache s)"
    and f: "sec (cache s2 ! k) = S" "has_writer (cache s2 ! k)"
       "flag (cache s2 ! k) AND B_DIRTY \<noteq> 0" "data (cache s2 ! k) = contents (fs_device s) S"
    and o: "\<forall>j < length (cache s). j \<noteq> k \<longrightarrow> sec (cache s2 ! j) \<noteq> S"
    by blast
  have t: "cacheTryGetIdx fuel s S W_WRITE = Inr (s2, k)"
    by (simp add: cacheTryGetIdx_def cacheGetIdx_none[OF sc] m)
  have mc: "memcpy (data (cache s2 ! k)) P BLOCK_SECTOR_SIZE = P"
    using memcpy_whole[OF lp] ls f(4) by simp
  let ?s1 = "s2\<lparr>cache := (cache s2)[k := (cache s2 ! k)\<lparr>has_writer := False, data := P\<rparr>]\<rparr>"
  have w: "cache_write fuel s S P = Inr ?s1"
    using f(2) by (simp add: cache_write_def t mc cache_write_release_def)
  show ?thesis
    apply (rule exI[of _ ?s1], rule exI[of _ k])
    using w k l2 f o by (auto simp: nth_list_update)
qed

text \<open>
  Why a quiescent state has two entries: with a single entry the read-ahead of a miss
  picks, as its victim, the entry its own caller holds for writing, and the caller waits
  for the read-ahead.
\<close>

lemma single_entry_miss_blocks: "cache_write 3 one_entry 3 P = Inl Blocked"
  by (simp add: cache_write_def cacheTryGetIdx_def cacheGetIdx_def cacheGetIdx_scan.simps
        race_evals one_entry_def blank_dev_def)

text \<open>
  Where the sector is not duplicated the write does reach the device. In a quiescent
  state in which sector \<open>S\<close> is not resident in two entries of which the later is dirty,
  and with blocks of one sector, \<^verbatim>\<open>cache_write(S, P)\<close> returns, and after the
  \<^verbatim>\<open>cache_flush\<close> that follows it the device holds exactly \<open>P\<close> at sector \<open>S\<close>, an
  entry holds \<open>S\<close>, and no entry is dirty.
\<close>

lemma write_then_flush_unique:
  assumes "quiescent s" and "2 * length (cache s) + 1 \<le> fuel"
    and "length P = BLOCK_SECTOR_SIZE"
    and "length (contents (fs_device s) S) = BLOCK_SECTOR_SIZE"
    and "\<forall>i j. i < j \<and> j < length (cache s) \<and> sec (cache s ! i) = S \<and> sec (cache s ! j) = S
           \<longrightarrow> flag (cache s ! j) AND B_DIRTY = 0"
  shows "\<exists>s1. cache_write fuel s S P = Inr s1
           \<and> contents (fs_device (cache_flush s1)) S = P
           \<and> (\<exists>k < length (cache s). sec (cache (cache_flush s1) ! k) = S)
           \<and> (\<forall>c \<in> set (cache (cache_flush s1)). flag c AND B_DIRTY = 0)"
proof -
  have "\<exists>s1 k. cache_write fuel s S P = Inr s1 \<and> k < length (cache s1)
            \<and> length (cache s1) = length (cache s)
            \<and> sec (cache s1 ! k) = S \<and> data (cache s1 ! k) = P
            \<and> flag (cache s1 ! k) AND B_DIRTY \<noteq> 0
            \<and> (\<forall>j < length (cache s1). j \<noteq> k \<and> sec (cache s1 ! j) = S
                   \<and> flag (cache s1 ! j) AND B_DIRTY \<noteq> 0 \<longrightarrow> j < k)"
  proof (cases "cacheGetIdx_scan (cache s) 0 S")
    case None
    show ?thesis
      using cache_write_miss_post[OF assms(1,2) None assms(3)] assms(4) by simp
  next
    case (Some k)
    then have k: "k < length (cache s)" using scan_Some by blast
    then have "cache s ! k \<in> set (cache s)" by simp
    with assms(1) have "idle (cache s ! k)" "length (data (cache s ! k)) \<le> BLOCK_SECTOR_SIZE"
      by (auto simp: quiescent_def)
    from cache_write_hit_post[OF Some this assms(3,5)] show ?thesis .
  qed
  then obtain s1 k where w: "cache_write fuel s S P = Inr s1" and k: "k < length (cache s1)"
    and l: "length (cache s1) = length (cache s)"
    and p: "sec (cache s1 ! k) = S" "data (cache s1 ! k) = P"
      "flag (cache s1 ! k) AND B_DIRTY \<noteq> 0"
    and o: "\<forall>j < length (cache s1). j \<noteq> k \<and> sec (cache s1 ! j) = S
                   \<and> flag (cache s1 ! j) AND B_DIRTY \<noteq> 0 \<longrightarrow> j < k"
    by blast
  from flush_after_write[OF k p(1,3) o] p(2) w k l show ?thesis by auto
qed

lemma write_then_flush_unique_example:
  "length (replicate BLOCK_SECTOR_SIZE (1::8 word)) = BLOCK_SECTOR_SIZE
   \<and> 2 * length (cache two_entries) + 1 \<le> 5
   \<and> (\<exists>s1. cache_write 5 two_entries 3 (replicate BLOCK_SECTOR_SIZE 1) = Inr s1
            \<and> contents (fs_device (cache_flush s1)) 3 = replicate BLOCK_SECTOR_SIZE 1)
   \<and> (\<exists>s1. cache_write 5 two_entries 5 (replicate BLOCK_SECTOR_SIZE 1) = Inr s1
            \<and> contents (fs_device (cache_flush s1)) 5 = replicate BLOCK_SECTOR_SIZE 1)"
proof -
  have q: "quiescent two_entries" by (simp add: quiescent_def two_entries_def idle_def)
  have f: "2 * length (cache two_entries) + 1 \<le> 5" by (simp add: two_entries_def)
  have p: "length (replicate BLOCK_SECTOR_SIZE (1::8 word)) = BLOCK_SECTOR_SIZE" by simp
  have c: "length (contents (fs_device two_entries) x) = BLOCK_SECTOR_SIZE" for x
    by (simp add: two_entries_def blank_dev_def)
  have d: "\<forall>i j. i < j \<and> j < length (cache two_entries) \<and> sec (cache two_entries ! i) = x
             \<and> sec (cache two_entries ! j) = x
           \<longrightarrow> flag (cache two_entries ! j) AND B_DIRTY = 0" if "x = 3 \<or> x = 5" for x
    using that by (auto simp: two_entries_def less_Suc_eq)
  from write_then_flush_unique[OF q f p c d, of 3] write_then_flush_unique[OF q f p c d, of 5] f p
  show ?thesis by blast
qed


section \<open>A write and a flush over a duplicated sector\<close>

lemma cache_write_finish_eq:
  "cache_write fuel s sc from =
     (case cacheTryGetIdx fuel s sc W_WRITE of
        Inl x \<Rightarrow> Inl x
      | Inr (s1, i) \<Rightarrow> cache_write_finish s1 i from)"
  unfolding cache_write_def cache_write_finish_def by (rule refl)

lemma sector_size_pos: "0 < BLOCK_SECTOR_SIZE"
  by (simp add: BLOCK_SECTOR_SIZE_def)

lemma dup_lookup:
  "cacheGetIdx (cache_init (boot 2 8)) 7 W_WRITE = Inr (cache_init (boot 2 8), None)"
  by (simp add: boot2 cacheGetIdx_def cacheGetIdx_scan.simps init_entry_def zero_entry_def)

lemma dup_load1: "cacheTryGetIdx_miss 5 (cache_init (boot 2 8)) 7 W_WRITE = Inr (dup_mid, 1)"
  by (simp add: boot2 race_evals dup_mid_def init_entry_def zero_entry_def blank_dev_def)

lemma dup_load2: "cacheTryGetIdx_miss 5 dup_mid 7 W_WRITE = Inr (dup_held, 0)"
  by (simp add: boot2 race_evals dup_mid_def dup_held_def init_entry_def zero_entry_def
        blank_dev_def)

lemma dup_finish1: "cache_write_finish dup_held 1 (replicate BLOCK_SECTOR_SIZE 1) = Inr dup_half"
  by (simp add: boot2 cache_write_finish_def cache_write_release_def memcpy_def
        dup_held_def dup_half_def init_entry_def zero_entry_def)

lemma dup_finish2: "cache_write_finish dup_half 0 (replicate BLOCK_SECTOR_SIZE 2) = Inr dup_table"
  by (simp add: boot2 cache_write_finish_def cache_write_release_def memcpy_def
        dup_held_def dup_half_def dup_table_def init_entry_def zero_entry_def)

lemma dup_write: "cache_write 5 dup_table 7 (replicate BLOCK_SECTOR_SIZE 3) = Inr dup_written"
  by (simp add: boot2 cache_write_def cacheTryGetIdx_def cacheGetIdx_def
        cacheGetIdx_scan.simps race_evals memcpy_def dup_held_def dup_table_def
        dup_written_def init_entry_def zero_entry_def)

lemma dup_flush:
  "contents (fs_device (cache_flush dup_written)) 7 = replicate BLOCK_SECTOR_SIZE 1"
  by (simp add: boot2 cache_flush_def dup_held_def dup_written_def init_entry_def
        zero_entry_def block_write_def B_DIRTY_def)

lemma dup_differ: "replicate BLOCK_SECTOR_SIZE (1::8 word) \<noteq> replicate BLOCK_SECTOR_SIZE 3"
  using sector_size_pos by (simp add: replicate_eq_replicate)

text \<open>
  C6. The code does not always bring a written block to the device. Two threads write
  sector 7 to a fresh cache of two entries; both miss before either takes the eviction
  lock, so that each installs sector 7 in an entry of its own, stores its block (ones in
  entry 1, twos in entry 0) and releases. Nobody holds an entry of the table they leave,
  and both entries are dirty. From there \<^verbatim>\<open>cache_write(7, P)\<close> with \<open>P\<close> a block of threes
  returns, having stored \<open>P\<close> in entry 0, and the \<^verbatim>\<open>cache_flush\<close> that follows writes
  entry 0 and then entry 1 to sector 7: the device holds the block of ones, not \<open>P\<close>.
\<close>

theorem write_then_flush_duplicate:
  "conc_reach 5 (cache_init (boot 2 8), [Looking 7 W_WRITE, Looking 7 W_WRITE])
                (dup_held, [Holding 1, Holding 0])
   \<and> cache_write_finish dup_held 1 (replicate BLOCK_SECTOR_SIZE 1) = Inr dup_half
   \<and> cache_write_finish dup_half 0 (replicate BLOCK_SECTOR_SIZE 2) = Inr dup_table
   \<and> idle (cache dup_table ! 0) \<and> idle (cache dup_table ! 1) \<and> \<not> eviction_lock dup_table
   \<and> cache_write 5 dup_table 7 (replicate BLOCK_SECTOR_SIZE 3) = Inr dup_written
   \<and> contents (fs_device (cache_flush dup_written)) 7 = replicate BLOCK_SECTOR_SIZE 1
   \<and> replicate BLOCK_SECTOR_SIZE (1::8 word) \<noteq> replicate BLOCK_SECTOR_SIZE 3"
proof -
  let ?s0 = "cache_init (boot 2 8)"
  let ?L = "Looking 7 W_WRITE" and ?M = "Missed 7 W_WRITE"
  have r0: "conc_reach 5 (?s0, [?L, ?L]) (?s0, [?L, ?L])" by (rule reach_refl)
  have "conc_step 5 (?s0, [?L, ?L]) (?s0, [?L, ?L][0 := ?M])"
    by (rule lookup_miss[where sc = 7 and w = W_WRITE]) (simp_all add: dup_lookup)
  then have r1: "conc_reach 5 (?s0, [?L, ?L]) (?s0, [?M, ?L])"
    using reach_step[OF r0] by simp
  have "conc_step 5 (?s0, [?M, ?L]) (?s0, [?M, ?L][1 := ?M])"
    by (rule lookup_miss[where sc = 7 and w = W_WRITE]) (simp_all add: dup_lookup)
  then have r2: "conc_reach 5 (?s0, [?L, ?L]) (?s0, [?M, ?M])"
    using reach_step[OF r1] by simp
  have "conc_step 5 (?s0, [?M, ?M]) (dup_mid, [?M, ?M][0 := Holding 1])"
    by (rule evict_load[where sc = 7 and w = W_WRITE]) (simp_all add: dup_load1)
  then have r3: "conc_reach 5 (?s0, [?L, ?L]) (dup_mid, [Holding 1, ?M])"
    using reach_step[OF r2] by simp
  have "conc_step 5 (dup_mid, [Holding 1, ?M]) (dup_held, [Holding 1, ?M][1 := Holding 0])"
    by (rule evict_load[where sc = 7 and w = W_WRITE]) (simp_all add: dup_load2)
  then have r4: "conc_reach 5 (?s0, [?L, ?L]) (dup_held, [Holding 1, Holding 0])"
    using reach_step[OF r3] by simp
  have i: "idle (cache dup_table ! 0)" "idle (cache dup_table ! 1)" "\<not> eviction_lock dup_table"
    by (simp_all add: boot2 dup_table_def dup_held_def idle_def init_entry_def zero_entry_def)
  from r4 dup_finish1 dup_finish2 i dup_write dup_flush dup_differ show ?thesis by blast
qed

end
